theory Spec2Isabelle
  imports Main "HOL-Library.Word" "HOL-Library.Log_Nat"
begin

unbundle bit_operations_syntax

section \<open>JavaScript strings and values\<close>

text \<open>
  A JavaScript string is a sequence of 16-bit code units; \<open>length\<close>, \<open>indexOf\<close>,
  \<open>split\<close>, \<open>trim\<close>, \<open>startsWith\<close> and the other string methods of the sources all
  count and compare code units. A \<open>Buffer\<close> is a sequence of bytes.
\<close>

type_synonym code_unit = "16 word"
type_synonym jsstring = "code_unit list"
type_synonym buffer = "8 word list"

text \<open>String literals of the sources are ASCII; \<open>js\<close> writes one as code units.\<close>

definition js :: "string \<Rightarrow> jsstring" where
  "js s = map of_char s"

text \<open>
  White space as \<open>String.prototype.trim\<close> and the numeric conversion of strings see it:
  the WhiteSpace and LineTerminator code points of ECMAScript.
\<close>

definition is_whitespace :: "code_unit \<Rightarrow> bool" where
  "is_whitespace c \<longleftrightarrow>
     c = 0x09 \<or> c = 0x0A \<or> c = 0x0B \<or> c = 0x0C \<or> c = 0x0D \<or> c = 0x20 \<or> c = 0xA0 \<or>
     c = 0x1680 \<or> (0x2000 \<le> c \<and> c \<le> 0x200A) \<or> c = 0x2028 \<or> c = 0x2029 \<or>
     c = 0x202F \<or> c = 0x205F \<or> c = 0x3000 \<or> c = 0xFEFF"

definition trim :: "jsstring \<Rightarrow> jsstring" where
  "trim s = rev (dropWhile is_whitespace (rev (dropWhile is_whitespace s)))"

text \<open>
  \<open>toLowerCase\<close> on the ASCII letters. The case mapping of letters outside ASCII is not
  modelled (those code units are kept); no such letter maps to an ASCII letter occurring in
  the literals \<open>true\<close>, \<open>yes\<close>, \<open>false\<close>, \<open>no\<close> that the sources compare the result with.
\<close>

definition lower_unit :: "code_unit \<Rightarrow> code_unit" where
  "lower_unit c = (if 0x41 \<le> c \<and> c \<le> 0x5A then c + 0x20 else c)"

definition toLowerCase :: "jsstring \<Rightarrow> jsstring" where
  "toLowerCase s = map lower_unit s"

subsection \<open>String methods\<close>

definition startsWith :: "jsstring \<Rightarrow> jsstring \<Rightarrow> bool" where
  "startsWith s p \<longleftrightarrow> take (length p) s = p"

definition endsWith :: "jsstring \<Rightarrow> jsstring \<Rightarrow> bool" where
  "endsWith s p \<longleftrightarrow> length p \<le> length s \<and> drop (length s - length p) s = p"

text \<open>\<open>indexOf\<close>: the least index at which the pattern occurs, \<open>-1\<close> when it does not.\<close>

fun indexOf :: "jsstring \<Rightarrow> jsstring \<Rightarrow> int" where
  "indexOf [] p = (if p = [] then 0 else - 1)"
| "indexOf (c # s) p =
     (if startsWith (c # s) p then 0
      else let k = indexOf s p in if k < 0 then - 1 else k + 1)"

definition includes_str :: "jsstring \<Rightarrow> jsstring \<Rightarrow> bool" where
  "includes_str s p \<longleftrightarrow> indexOf s p \<noteq> - 1"

text \<open>
  \<open>substring(start, end)\<close> clamps both arguments to the string and swaps them when they are
  out of order; \<open>substring(start)\<close> runs to the end of the string.
\<close>

definition substring :: "jsstring \<Rightarrow> int \<Rightarrow> int \<Rightarrow> jsstring" where
  "substring s start end' =
     (let len = int (length s);
          a = min (max start 0) len;
          b = min (max end' 0) len;
          from = min a b;
          to = max a b
      in take (nat (to - from)) (drop (nat from) s))"

definition substring_from :: "jsstring \<Rightarrow> int \<Rightarrow> jsstring" where
  "substring_from s start = substring s start (int (length s))"

text \<open>\<open>slice(start, end)\<close> counts a negative argument from the end of the string.\<close>

definition slice_str :: "jsstring \<Rightarrow> int \<Rightarrow> int \<Rightarrow> jsstring" where
  "slice_str s start end' =
     (let len = int (length s);
          from = (if start < 0 then max (len + start) 0 else min start len);
          to = (if end' < 0 then max (len + end') 0 else min end' len)
      in take (nat (to - from)) (drop (nat from) s))"

text \<open>\<open>split\<close> at a separator of one code unit: the result is never empty.\<close>

fun split_on :: "code_unit \<Rightarrow> jsstring \<Rightarrow> jsstring list" where
  "split_on sep [] = [[]]"
| "split_on sep (c # cs) =
     (if c = sep then [] # split_on sep cs
      else (case split_on sep cs of [] \<Rightarrow> [[c]] | p # ps \<Rightarrow> (c # p) # ps))"


subsection \<open>Values\<close>

text \<open>
  The values the validators receive (\<open>value: any\<close>): raw strings from the process
  environment or the backing file, and booleans given as schema defaults.
\<close>

datatype jsval = VStr jsstring | VBool bool

fun String_of :: "jsval \<Rightarrow> jsstring" where
  "String_of (VStr s) = s"
| "String_of (VBool b) = (if b then js ''true'' else js ''false'')"

section \<open>JavaScript numbers\<close>

text \<open>
  A Number is an IEEE 754 binary64 value: NaN, an infinity, negative zero, or a finite
  value, which is kept as the rational it denotes.
\<close>

datatype jsnum = NaN | PosInf | NegInf | NegZero | Finite rat

fun fin_val :: "jsnum \<Rightarrow> rat" where
  "fin_val (Finite q) = q"
| "fin_val _ = 0"

text \<open>The relational operators \<open><\<close> and \<open><=\<close> on Numbers: false when an operand is NaN.\<close>

fun js_lt :: "jsnum \<Rightarrow> jsnum \<Rightarrow> bool" where
  "js_lt NaN _ = False"
| "js_lt _ NaN = False"
| "js_lt PosInf _ = False"
| "js_lt _ NegInf = False"
| "js_lt NegInf _ = True"
| "js_lt _ PosInf = True"
| "js_lt a b = (fin_val a < fin_val b)"

fun js_le :: "jsnum \<Rightarrow> jsnum \<Rightarrow> bool" where
  "js_le NaN _ = False"
| "js_le _ NaN = False"
| "js_le NegInf _ = True"
| "js_le _ PosInf = True"
| "js_le PosInf _ = False"
| "js_le _ NegInf = False"
| "js_le a b = (fin_val a \<le> fin_val b)"

definition isNaN :: "jsnum \<Rightarrow> bool" where
  "isNaN n \<longleftrightarrow> n = NaN"

subsection \<open>Rounding to binary64\<close>

definition pow2 :: "int \<Rightarrow> rat" where
  "pow2 k = (if 0 \<le> k then 2 ^ nat k else 1 / 2 ^ nat (- k))"

definition pow10 :: "int \<Rightarrow> rat" where
  "pow10 k = (if 0 \<le> k then 10 ^ nat k else 1 / 10 ^ nat (- k))"

text \<open>The exponent \<open>e\<close> with \<open>2 ^ e \<le> q < 2 ^ (e + 1)\<close>, for positive \<open>q\<close>.\<close>

definition floor_log2 :: "rat \<Rightarrow> int" where
  "floor_log2 q =
     (let (a, b) = quotient_of q; g = bitlen a - bitlen b
      in if pow2 g \<le> q then g else g - 1)"

definition round_half_even :: "rat \<Rightarrow> int" where
  "round_half_even x =
     (let f = \<lfloor>x\<rfloor>; d = x - of_int f
      in if d < 1 / 2 then f else if 1 / 2 < d then f + 1
         else if f mod 2 = 0 then f else f + 1)"

text \<open>
  Round a non-negative rational to the nearest binary64 value, ties to even: 53 significant
  bits, least exponent \<open>-1022\<close> (below it the values are subnormal), overflow to infinity.
\<close>

definition round_double :: "rat \<Rightarrow> jsnum" where
  "round_double q =
     (if q = 0 then Finite 0
      else let e = max (floor_log2 q) (- 1022);
               ulp = pow2 (e - 52);
               v = of_int (round_half_even (q / ulp)) * ulp
           in if pow2 1024 \<le> v then PosInf else Finite v)"

fun negate :: "jsnum \<Rightarrow> jsnum" where
  "negate NaN = NaN"
| "negate PosInf = NegInf"
| "negate NegInf = PosInf"
| "negate NegZero = Finite 0"
| "negate (Finite q) = (if q = 0 then NegZero else Finite (- q))"

subsection \<open>Conversion of a string to a Number\<close>

definition is_digit :: "code_unit \<Rightarrow> bool" where
  "is_digit c \<longleftrightarrow> 0x30 \<le> c \<and> c \<le> 0x39"

definition is_hex_digit :: "code_unit \<Rightarrow> bool" where
  "is_hex_digit c \<longleftrightarrow>
     (0x30 \<le> c \<and> c \<le> 0x39) \<or> (0x41 \<le> c \<and> c \<le> 0x46) \<or> (0x61 \<le> c \<and> c \<le> 0x66)"

definition digit_val :: "code_unit \<Rightarrow> int" where
  "digit_val c =
     (if 0x30 \<le> c \<and> c \<le> 0x39 then uint c - 0x30
      else if 0x41 \<le> c \<and> c \<le> 0x46 then uint c - 0x41 + 10
      else uint c - 0x61 + 10)"

definition digits_value :: "int \<Rightarrow> jsstring \<Rightarrow> int" where
  "digits_value base ds = foldl (\<lambda>acc d. acc * base + digit_val d) 0 ds"

text \<open>\<open>0x\<close>, \<open>0o\<close> and \<open>0b\<close> literals: a prefix and at least one digit of the base, no sign.\<close>

definition non_decimal :: "jsstring \<Rightarrow> jsnum option" where
  "non_decimal s =
     (case s of
        z # p # ds \<Rightarrow>
          if z = 0x30 \<and> ds \<noteq> [] then
            if (p = 0x78 \<or> p = 0x58) \<and> list_all is_hex_digit ds
              then Some (round_double (of_int (digits_value 16 ds)))
            else if (p = 0x6F \<or> p = 0x4F) \<and> list_all (\<lambda>c. 0x30 \<le> c \<and> c \<le> 0x37) ds
              then Some (round_double (of_int (digits_value 8 ds)))
            else if (p = 0x62 \<or> p = 0x42) \<and> list_all (\<lambda>c. c = 0x30 \<or> c = 0x31) ds
              then Some (round_double (of_int (digits_value 2 ds)))
            else None
          else None
      | _ \<Rightarrow> None)"

text \<open>The exponent part of a decimal literal, which must use up the rest of the string.\<close>

definition exponent_part :: "jsstring \<Rightarrow> int option" where
  "exponent_part r =
     (case r of
        [] \<Rightarrow> Some 0
      | c # r1 \<Rightarrow>
          if c = 0x65 \<or> c = 0x45 then
            (let (neg, ds) =
               (case r1 of
                  [] \<Rightarrow> (False, [])
                | d # r2 \<Rightarrow>
                    if d = 0x2D then (True, r2)
                    else if d = 0x2B then (False, r2) else (False, r1))
             in if ds \<noteq> [] \<and> list_all is_digit ds
                then Some (if neg then - digits_value 10 ds else digits_value 10 ds)
                else None)
          else None)"

text \<open>
  An unsigned decimal literal: \<open>Infinity\<close>, or digits with an optional fraction and an
  optional exponent, with at least one digit before or after the point.
\<close>

definition unsigned_decimal :: "jsstring \<Rightarrow> jsnum option" where
  "unsigned_decimal s =
     (if s = js ''Infinity'' then Some PosInf
      else
        let ip = takeWhile is_digit s;
            r = dropWhile is_digit s;
            (fp, r') =
              (case r of
                 [] \<Rightarrow> ([], [])
               | c # r1 \<Rightarrow>
                   if c = 0x2E then (takeWhile is_digit r1, dropWhile is_digit r1)
                   else ([], r))
        in if ip = [] \<and> fp = [] then None
           else
             (case exponent_part r' of
                None \<Rightarrow> None
              | Some e \<Rightarrow>
                  Some (round_double
                    (of_int (digits_value 10 (ip @ fp)) * pow10 (e - int (length fp))))))"

definition signed_decimal :: "jsstring \<Rightarrow> jsnum option" where
  "signed_decimal s =
     (case s of
        [] \<Rightarrow> None
      | c # r \<Rightarrow>
          if c = 0x2D then map_option negate (unsigned_decimal r)
          else if c = 0x2B then unsigned_decimal r
          else unsigned_decimal s)"

text \<open>
  \<open>Number(s)\<close> for a string: white space is stripped at both ends, the empty string is
  \<open>0\<close>, a numeric literal is its value rounded to binary64, anything else is NaN.
\<close>

definition to_number :: "jsstring \<Rightarrow> jsnum" where
  "to_number s =
     (let t = trim s
      in if t = [] then Finite 0
         else
           (case non_decimal t of
              Some n \<Rightarrow> n
            | None \<Rightarrow> (case signed_decimal t of Some n \<Rightarrow> n | None \<Rightarrow> NaN)))"

fun Number_of :: "jsval \<Rightarrow> jsnum" where
  "Number_of (VStr s) = to_number s"
| "Number_of (VBool b) = (if b then Finite 1 else Finite 0)"

section \<open>TypeValidator\<close>

text \<open>
  The fields of \<open>EnvFieldConfig\<close> that the modelled functions read. An optional field is
  an \<open>option\<close>: \<open>None\<close> is \<open>undefined\<close>.
\<close>

datatype env_type = TString | TNumber | TBoolean | TEnum | TUrl | TEmail | TPort | TJson

record env_field_config =
  cfg_type :: env_type
  cfg_required :: "bool option"
  cfg_default :: "jsval option"
  cfg_description :: "jsstring option"
  cfg_example :: "jsstring option"
  cfg_min :: "jsnum option"
  cfg_max :: "jsnum option"
  cfg_enum :: "jsstring list option"
  cfg_sensitive :: "bool option"

text \<open>The errors the validators throw, one constructor for each \<open>throw\<close>.\<close>

datatype validation_error =
    Invalid_number jsval
  | Number_below_min jsnum
  | Number_above_max jsnum
  | Invalid_boolean jsval
  | Invalid_port jsval

definition validateNumber :: "jsval \<Rightarrow> env_field_config \<Rightarrow> validation_error + jsnum" where
  "validateNumber v config =
     (let num = Number_of v
      in if isNaN num then Inl (Invalid_number v)
         else
           (case cfg_min config of
              Some m \<Rightarrow> if js_lt num m then Inl (Number_below_min m) else
                (case cfg_max config of
                   Some M \<Rightarrow> if js_lt M num then Inl (Number_above_max M) else Inr num
                 | None \<Rightarrow> Inr num)
            | None \<Rightarrow>
                (case cfg_max config of
                   Some M \<Rightarrow> if js_lt M num then Inl (Number_above_max M) else Inr num
                 | None \<Rightarrow> Inr num)))"

fun validateBoolean :: "jsval \<Rightarrow> validation_error + bool" where
  "validateBoolean (VBool b) = Inr b"
| "validateBoolean v =
     (let str = toLowerCase (String_of v)
      in if str = js ''true'' \<or> str = js ''1'' \<or> str = js ''yes'' then Inr True
         else if str = js ''false'' \<or> str = js ''0'' \<or> str = js ''no'' then Inr False
         else Inl (Invalid_boolean v))"

definition validatePort :: "jsval \<Rightarrow> validation_error + jsnum" where
  "validatePort v =
     (let num = Number_of v
      in if isNaN num \<or> js_lt num (Finite 1) \<or> js_lt (Finite 65535) num
         then Inl (Invalid_port v)
         else Inr num)"

text \<open>A number field that declares only the given bounds.\<close>

definition field_with_bounds :: "jsnum option \<Rightarrow> jsnum option \<Rightarrow> env_field_config" where
  "field_with_bounds lo hi =
     \<lparr>cfg_type = TNumber, cfg_required = None, cfg_default = None, cfg_description = None,
      cfg_example = None, cfg_min = lo, cfg_max = hi, cfg_enum = None, cfg_sensitive = None\<rparr>"

section \<open>EnvParser\<close>

text \<open>
  The result object is created by an object literal, so a property assignment
  \<open>obj[key] = value\<close> adds or replaces an own property, except for the key
  \<open>__proto__\<close>: there the assignment reaches the setter inherited from
  \<open>Object.prototype\<close> (which ignores a string and takes an object as the new prototype),
  and no own property is made. The map holds the own properties.
\<close>

type_synonym jsrecord = "jsstring \<rightharpoonup> jsstring"

definition set_property :: "(jsstring \<rightharpoonup> 'a) \<Rightarrow> jsstring \<Rightarrow> 'a \<Rightarrow> (jsstring \<rightharpoonup> 'a)" where
  "set_property obj key val = (if key = js ''__proto__'' then obj else obj(key \<mapsto> val))"

text \<open>
  The inner \<open>while\<close> loop of \<open>parse\<close>: as long as the value ends with a backslash and a
  following line exists, the backslash is replaced by a line feed and the trimmed
  following line. It returns the value and the index of the last line it consumed.
\<close>

function continuation :: "jsstring list \<Rightarrow> jsstring \<Rightarrow> nat \<Rightarrow> jsstring \<times> nat" where
  "continuation lines val i =
     (if endsWith val [0x5C] \<and> i < length lines - 1
      then continuation lines (slice_str val 0 (- 1) @ [0x0A] @ trim (lines ! (i + 1))) (i + 1)
      else (val, i))"
  by pat_completeness auto
termination
  by (relation "measure (\<lambda>(lines, val, i). length lines - i)") auto

declare continuation.simps [simp del]

lemma continuation_index: "i \<le> snd (continuation lines val i)"
proof (induction lines val i rule: continuation.induct)
  case (1 lines val i)
  show ?case
  proof (cases "endsWith val [0x5C] \<and> i < length lines - 1")
    case True
    with 1 have "i + 1 \<le> snd (continuation lines val i)"
      by (subst continuation.simps) simp
    then show ?thesis by simp
  next
    case False
    then show ?thesis by (subst continuation.simps) auto
  qed
qed

lemma continuation_measure:
  "i < length lines \<Longrightarrow>
   length lines - Suc (snd (continuation lines val i)) < length lines - i"
  using continuation_index [of i lines val] by arith

text \<open>The \<open>for\<close> loop of \<open>parse\<close>, from line \<open>i\<close> on.\<close>

function parse_loop :: "jsstring list \<Rightarrow> nat \<Rightarrow> jsrecord \<Rightarrow> jsrecord" where
  "parse_loop lines i result =
     (if i < length lines then
        (let line = trim (lines ! i)
         in if line = [] \<or> startsWith line (js ''#'') then parse_loop lines (i + 1) result
            else if includes_str line (js ''='') then
              (let equalIndex = indexOf line (js ''='');
                   key = trim (substring line 0 equalIndex);
                   val = trim (substring_from line (equalIndex + 1));
                   val = (if (startsWith val [0x22] \<and> endsWith val [0x22]) \<or>
                             (startsWith val (js [CHR 0x27]) \<and> endsWith val (js [CHR 0x27]))
                          then slice_str val 1 (- 1) else val);
                   cont = continuation lines val i
               in parse_loop lines (snd cont + 1) (set_property result key (fst cont)))
            else parse_loop lines (i + 1) result)
      else result)"
  by pat_completeness auto
termination
  by (relation "measure (\<lambda>(lines, i, result). length lines - i)")
    (simp_all add: continuation_measure)

declare parse_loop.simps [simp del]

definition parse :: "jsstring \<Rightarrow> jsrecord" where
  "parse content = parse_loop (split_on 0x0A content) 0 Map.empty"

text \<open>
  \<open>loadFile\<close> reads the file system. What a process can observe is kept in a record: the
  process environment (\<open>process.env\<close>) and the readable files, as a map from a path to
  the text of the file. A path that is not in the map does not exist.
\<close>

record world =
  process_env :: "jsstring \<rightharpoonup> jsstring"
  files :: "jsstring \<rightharpoonup> jsstring"

definition loadFile :: "world \<Rightarrow> jsstring \<Rightarrow> jsrecord" where
  "loadFile w filePath =
     (case files w filePath of None \<Rightarrow> Map.empty | Some content \<Rightarrow> parse content)"


section \<open>FileManager\<close>

text \<open>
  \<open>exists\<close>, \<open>read\<close> and \<open>write\<close> on the file at \<open>filePath\<close>: a missing file reads as the
  empty string, and writing makes the file. The files are UTF-8 text, so the text of a
  file is a well-formed string: a surrogate that stands alone would be written as U+FFFD.
  The model keeps a text as it is and covers the well-formed ones.
\<close>

definition file_exists :: "world \<Rightarrow> jsstring \<Rightarrow> bool" where
  "file_exists w filePath \<longleftrightarrow> files w filePath \<noteq> None"

definition read_file :: "world \<Rightarrow> jsstring \<Rightarrow> jsstring" where
  "read_file w filePath = (case files w filePath of None \<Rightarrow> [] | Some content \<Rightarrow> content)"

definition write_file :: "world \<Rightarrow> jsstring \<Rightarrow> jsstring \<Rightarrow> world" where
  "write_file w filePath content = w\<lparr>files := (files w)(filePath \<mapsto> content)\<rparr>"

subsection \<open>The regular expression of \<open>updateKey\<close>\<close>

text \<open>
  \<open>updateKey\<close> builds the pattern \<^verbatim>\<open>^KEY=.*$\<close> with the flag \<open>m\<close> from the key as it is.
  The model covers the keys in which no character is a syntax character of regular
  expressions, so that the key stands for itself in the pattern.
\<close>

definition syntax_character :: "code_unit \<Rightarrow> bool" where
  "syntax_character c \<longleftrightarrow>
     c = 0x5E \<or> c = 0x24 \<or> c = 0x5C \<or> c = 0x2E \<or> c = 0x2A \<or> c = 0x2B \<or> c = 0x3F \<or>
     c = 0x28 \<or> c = 0x29 \<or> c = 0x5B \<or> c = 0x5D \<or> c = 0x7B \<or> c = 0x7D \<or> c = 0x7C"

definition literal_key :: "jsstring \<Rightarrow> bool" where
  "literal_key key \<longleftrightarrow> \<not> list_ex syntax_character key"

definition line_terminator :: "code_unit \<Rightarrow> bool" where
  "line_terminator c \<longleftrightarrow> c = 0x0A \<or> c = 0x0D \<or> c = 0x2028 \<or> c = 0x2029"

text \<open>
  The least index at which the pattern matches. With the flag \<open>m\<close>, \<open>^\<close> holds at the
  start of the string and after a line terminator; \<open>at_start\<close> says whether it holds at
  the head of the string that is left. After the literal text, \<open>.*\<close> takes every code
  unit up to the next line terminator or the end, where \<open>$\<close> holds: the pattern matches
  wherever a line starts with the literal text.
\<close>

fun search_line_start :: "jsstring \<Rightarrow> bool \<Rightarrow> jsstring \<Rightarrow> nat option" where
  "search_line_start lit at_start [] = (if at_start \<and> lit = [] then Some 0 else None)"
| "search_line_start lit at_start (c # s) =
     (if at_start \<and> startsWith (c # s) lit then Some 0
      else map_option Suc (search_line_start lit (line_terminator c) s))"

text \<open>The match of \<^verbatim>\<open>^KEY=.*$\<close>: the index where it starts and the matched text.\<close>

definition regex_exec :: "jsstring \<Rightarrow> jsstring \<Rightarrow> (nat \<times> jsstring) option" where
  "regex_exec key content =
     (case search_line_start (key @ js ''='') True content of
        None \<Rightarrow> None
      | Some p \<Rightarrow>
          Some (p, key @ js ''='' @
            takeWhile (\<lambda>c. \<not> line_terminator c) (drop (p + length key + 1) content)))"

text \<open>
  The replacement text of \<open>String.prototype.replace\<close> for a pattern without capture
  groups: \<^verbatim>\<open>$$\<close> is a dollar sign, \<^verbatim>\<open>$&\<close> the matched text, \<^verbatim>\<open>$`\<close> the text before the
  match, \<^verbatim>\<open>$'\<close> the text after it; any other dollar sign stands for itself.
\<close>

fun expand_replacement :: "jsstring \<Rightarrow> jsstring \<Rightarrow> jsstring \<Rightarrow> jsstring \<Rightarrow> jsstring" where
  "expand_replacement matched pre post [] = []"
| "expand_replacement matched pre post [c] = [c]"
| "expand_replacement matched pre post (c # d # t) =
     (if c = 0x24 then
        (if d = 0x24 then 0x24 # expand_replacement matched pre post t
         else if d = 0x26 then matched @ expand_replacement matched pre post t
         else if d = 0x60 then pre @ expand_replacement matched pre post t
         else if d = 0x27 then post @ expand_replacement matched pre post t
         else 0x24 # expand_replacement matched pre post (d # t))
      else c # expand_replacement matched pre post (d # t))"

definition replace_first :: "jsstring \<Rightarrow> nat \<times> jsstring \<Rightarrow> jsstring \<Rightarrow> jsstring" where
  "replace_first content m replacement =
     (let (p, matched) = m;
          pre = take p content;
          post = drop (p + length matched) content
      in pre @ expand_replacement matched pre post replacement @ post)"

text \<open>
  \<open>updateKey\<close>, for a literal key. \<open>None\<close> stands for a key outside the model, one with a
  syntax character: the source runs on such a key too, with the pattern that the key then
  spells, or throws when the key spells none. The value is written as the template literal
  converts it to a string.
\<close>

definition updateKey :: "world \<Rightarrow> jsstring \<Rightarrow> jsstring \<Rightarrow> jsval \<Rightarrow> world option" where
  "updateKey w filePath key val =
     (if literal_key key then
        (let content = read_file w filePath;
             content =
               (case regex_exec key content of
                  Some m \<Rightarrow> replace_first content m (key @ js ''='' @ String_of val)
                | None \<Rightarrow> content @ [0x0A] @ key @ js ''='' @ String_of val)
         in Some (write_file w filePath content))
      else None)"

text \<open>A world whose only file is \<^verbatim>\<open>.env\<close>, with the given content.\<close>

definition env_file :: "jsstring \<Rightarrow> world" where
  "env_file content = \<lparr>process_env = Map.empty, files = [js ''.env'' \<mapsto> content]\<rparr>"

section \<open>EnvGuardSwagger\<close>

text \<open>
  An optional boolean of a field configuration is truthy when it is \<open>true\<close>; an optional
  array is truthy when it is defined.
\<close>

definition truthy :: "bool option \<Rightarrow> bool" where
  "truthy b \<longleftrightarrow> b = Some True"

definition mapType :: "env_type \<Rightarrow> jsstring" where
  "mapType envType =
     (case envType of
        TNumber \<Rightarrow> js ''integer''
      | TPort \<Rightarrow> js ''integer''
      | TBoolean \<Rightarrow> js ''boolean''
      | TJson \<Rightarrow> js ''object''
      | _ \<Rightarrow> js ''string'')"

record swagger_property =
  sp_type :: jsstring
  sp_description :: "jsstring option"
  sp_example :: "jsstring option"
  sp_default :: "jsval option"
  sp_enum :: "jsstring list option"

text \<open>
  The schema object \<open>components.schemas.Environment\<close> of the generated document; the
  objects around it are constant.
\<close>

record swagger_environment =
  env_type_name :: jsstring
  properties :: "jsstring \<rightharpoonup> swagger_property"
  required :: "jsstring list"

text \<open>
  The loop over \<open>Object.entries(schema)\<close>, which lists every own key of the schema once,
  with its configuration.
\<close>

fun swagger_loop ::
  "(jsstring \<times> env_field_config) list \<Rightarrow> (jsstring \<rightharpoonup> swagger_property) \<times> jsstring list \<Rightarrow>
   (jsstring \<rightharpoonup> swagger_property) \<times> jsstring list" where
  "swagger_loop [] (props, req) = (props, req)"
| "swagger_loop ((key, config) # rest) (props, req) =
     (if truthy (cfg_sensitive config) then swagger_loop rest (props, req)
      else
        (let props' = set_property props key
               \<lparr>sp_type = mapType (cfg_type config),
                sp_description = cfg_description config,
                sp_example = cfg_example config,
                sp_default = cfg_default config,
                sp_enum = cfg_enum config\<rparr>;
             req' = (if truthy (cfg_required config) then req @ [key] else req)
         in swagger_loop rest (props', req')))"

definition generateSwaggerDoc :: "(jsstring \<times> env_field_config) list \<Rightarrow> swagger_environment" where
  "generateSwaggerDoc schema =
     (let (props, req) = swagger_loop schema (Map.empty, [])
      in \<lparr>env_type_name = js ''object'', properties = props, required = req\<rparr>)"

definition example_schema :: "(jsstring \<times> env_field_config) list" where
  "example_schema =
     [(js ''PORT'',
       \<lparr>cfg_type = TPort, cfg_required = None, cfg_default = None, cfg_description = None,
        cfg_example = None, cfg_min = None, cfg_max = None, cfg_enum = None,
        cfg_sensitive = None\<rparr>),
      (js ''DATABASE_URL'',
       \<lparr>cfg_type = TUrl, cfg_required = Some True, cfg_default = None, cfg_description = None,
        cfg_example = None, cfg_min = None, cfg_max = None, cfg_enum = None,
        cfg_sensitive = Some True\<rparr>)]"

section \<open>Text encodings\<close>

subsection \<open>Hexadecimal\<close>

text \<open>\<open>buf.toString('hex')\<close>: two lower-case digits for every byte.\<close>

definition hex_digit :: "nat \<Rightarrow> code_unit" where
  "hex_digit n = (if n < 10 then of_nat (0x30 + n) else of_nat (0x61 + (n - 10)))"

definition to_hex :: "buffer \<Rightarrow> jsstring" where
  "to_hex buf = concat (map (\<lambda>b. [hex_digit (unat b div 16), hex_digit (unat b mod 16)]) buf)"

text \<open>
  \<open>Buffer.from(s, 'hex')\<close> and the \<open>hex\<close> input encoding: pairs of digits are decoded
  up to the first pair that is not hexadecimal; a single trailing character is dropped.
\<close>

fun from_hex :: "jsstring \<Rightarrow> buffer" where
  "from_hex (a # b # rest) =
     (if is_hex_digit a \<and> is_hex_digit b
      then of_nat (16 * nat (digit_val a) + nat (digit_val b)) # from_hex rest
      else [])"
| "from_hex _ = []"

text \<open>
  What a hexadecimal field is, in the words of the format: for every byte two characters
  of the alphabet \<^verbatim>\<open>0123456789abcdef\<close>, the one at the place of the upper four bits and
  then the one at the place of the lower four bits.
\<close>

definition hex_alphabet :: jsstring where
  "hex_alphabet = js ''0123456789abcdef''"

fun hex_encoding :: "jsstring \<Rightarrow> buffer \<Rightarrow> bool" where
  "hex_encoding [] [] \<longleftrightarrow> True"
| "hex_encoding (a # b # h) (x # xs) \<longleftrightarrow>
     a = hex_alphabet ! (unat x div 16) \<and> b = hex_alphabet ! (unat x mod 16) \<and> hex_encoding h xs"
| "hex_encoding _ _ \<longleftrightarrow> False"

subsection \<open>UTF-8\<close>

text \<open>
  A string is encoded from its code points: a high surrogate followed by a low surrogate
  is one code point, and a surrogate that stands alone is encoded as U+FFFD.
\<close>

definition is_high_surrogate :: "code_unit \<Rightarrow> bool" where
  "is_high_surrogate c \<longleftrightarrow> 0xD800 \<le> c \<and> c \<le> 0xDBFF"

definition is_low_surrogate :: "code_unit \<Rightarrow> bool" where
  "is_low_surrogate c \<longleftrightarrow> 0xDC00 \<le> c \<and> c \<le> 0xDFFF"

fun code_points :: "jsstring \<Rightarrow> nat list" where
  "code_points [] = []"
| "code_points [c] = [if is_high_surrogate c \<or> is_low_surrogate c then 0xFFFD else unat c]"
| "code_points (c # d # s) =
     (if is_high_surrogate c then
        (if is_low_surrogate d
         then (0x10000 + (unat c - 0xD800) * 0x400 + (unat d - 0xDC00)) # code_points s
         else 0xFFFD # code_points (d # s))
      else if is_low_surrogate c then 0xFFFD # code_points (d # s)
      else unat c # code_points (d # s))"

definition encode_code_point :: "nat \<Rightarrow> buffer" where
  "encode_code_point cp =
     (if cp < 0x80 then [of_nat cp]
      else if cp < 0x800 then [of_nat (0xC0 + cp div 0x40), of_nat (0x80 + cp mod 0x40)]
      else if cp < 0x10000 then
        [of_nat (0xE0 + cp div 0x1000), of_nat (0x80 + cp div 0x40 mod 0x40),
         of_nat (0x80 + cp mod 0x40)]
      else
        [of_nat (0xF0 + cp div 0x40000), of_nat (0x80 + cp div 0x1000 mod 0x40),
         of_nat (0x80 + cp div 0x40 mod 0x40), of_nat (0x80 + cp mod 0x40)])"

definition utf8_encode :: "jsstring \<Rightarrow> buffer" where
  "utf8_encode s = concat (map encode_code_point (code_points s))"

text \<open>
  The decoder: a lead byte fixes how many continuation bytes are needed and the range of
  the first of them; a byte that cannot start or continue a sequence gives U+FFFD, and a
  byte that breaks off a sequence is read again as the start of the next one.
\<close>

record utf8_state =
  code_point :: nat
  bytes_seen :: nat
  bytes_needed :: nat
  lower_boundary :: nat
  upper_boundary :: nat

definition utf8_start :: utf8_state where
  "utf8_start =
     \<lparr>code_point = 0, bytes_seen = 0, bytes_needed = 0,
      lower_boundary = 0x80, upper_boundary = 0xBF\<rparr>"

function utf8_decode_from :: "utf8_state \<Rightarrow> buffer \<Rightarrow> nat list" where
  "utf8_decode_from st [] = (if bytes_needed st \<noteq> 0 then [0xFFFD] else [])"
| "utf8_decode_from st (byte # bs) =
     (let b = unat byte in
      if bytes_needed st = 0 then
        (if b \<le> 0x7F then b # utf8_decode_from utf8_start bs
         else if 0xC2 \<le> b \<and> b \<le> 0xDF then
           utf8_decode_from (utf8_start\<lparr>bytes_needed := 1, code_point := b mod 0x20\<rparr>) bs
         else if 0xE0 \<le> b \<and> b \<le> 0xEF then
           utf8_decode_from
             (utf8_start\<lparr>bytes_needed := 2, code_point := b mod 0x10,
                lower_boundary := (if b = 0xE0 then 0xA0 else 0x80),
                upper_boundary := (if b = 0xED then 0x9F else 0xBF)\<rparr>) bs
         else if 0xF0 \<le> b \<and> b \<le> 0xF4 then
           utf8_decode_from
             (utf8_start\<lparr>bytes_needed := 3, code_point := b mod 0x08,
                lower_boundary := (if b = 0xF0 then 0x90 else 0x80),
                upper_boundary := (if b = 0xF4 then 0x8F else 0xBF)\<rparr>) bs
         else 0xFFFD # utf8_decode_from utf8_start bs)
      else if \<not> (lower_boundary st \<le> b \<and> b \<le> upper_boundary st) then
        0xFFFD # utf8_decode_from utf8_start (byte # bs)
      else
        (let cp = code_point st * 0x40 + b mod 0x40 in
         if bytes_seen st + 1 \<noteq> bytes_needed st then
           utf8_decode_from
             (st\<lparr>code_point := cp, bytes_seen := bytes_seen st + 1,
                lower_boundary := 0x80, upper_boundary := 0xBF\<rparr>) bs
         else cp # utf8_decode_from utf8_start bs))"
  by pat_completeness auto
termination
  by (relation "measure (\<lambda>(st, bs). 2 * length bs + (if bytes_needed st = 0 then 0 else 1))")
    (auto simp: utf8_start_def)

text \<open>A code point as code units: above U+FFFF it is a surrogate pair.\<close>

definition code_units :: "nat \<Rightarrow> jsstring" where
  "code_units cp =
     (if cp < 0x10000 then [of_nat cp]
      else [of_nat (0xD800 + (cp - 0x10000) div 0x400), of_nat (0xDC00 + (cp - 0x10000) mod 0x400)])"

definition utf8_decode :: "buffer \<Rightarrow> jsstring" where
  "utf8_decode bs = concat (map code_units (utf8_decode_from utf8_start bs))"

text \<open>A string is well formed when every surrogate in it belongs to a pair.\<close>

fun well_formed :: "jsstring \<Rightarrow> bool" where
  "well_formed [] = True"
| "well_formed [c] = (\<not> is_high_surrogate c \<and> \<not> is_low_surrogate c)"
| "well_formed (c # d # s) =
     (if is_high_surrogate c then is_low_surrogate d \<and> well_formed s
      else \<not> is_low_surrogate c \<and> well_formed (d # s))"

text \<open>A scalar value is a code point that is not a surrogate.\<close>

definition scalar_value :: "nat \<Rightarrow> bool" where
  "scalar_value cp \<longleftrightarrow> cp < 0x110000 \<and> \<not> (0xD800 \<le> cp \<and> cp \<le> 0xDFFF)"

section \<open>EncryptionManager\<close>

text \<open>
  The cipher comes from the \<open>crypto\<close> module of the platform: AES-256 in Galois/Counter
  Mode under the key that the constructor derives from the pass phrase. The model keeps
  what this mode of operation is: a key stream that depends on the initialization vector
  is combined with the data by exclusive or, byte by byte, and the authentication tag is
  a function of the initialization vector and the ciphertext. Decryption computes the tag
  of what it receives and fails when the tag it was given is a different one. The two
  functions are parameters; nothing is assumed of them.
\<close>

record cipher =
  keystream :: "buffer \<Rightarrow> nat \<Rightarrow> 8 word"
  auth_tag :: "buffer \<Rightarrow> buffer \<Rightarrow> buffer"

definition xor_stream :: "(nat \<Rightarrow> 8 word) \<Rightarrow> buffer \<Rightarrow> buffer" where
  "xor_stream ks data = map (\<lambda>(b, i). b XOR ks i) (zip data [0..<length data])"

datatype decrypt_error = Invalid_encrypted_format | Authentication_failed

text \<open>
  \<open>encrypt\<close>. The initialization vector, which the source draws from
  \<open>crypto.randomBytes(16)\<close>, is an argument.
\<close>

definition encrypt :: "cipher \<Rightarrow> buffer \<Rightarrow> jsstring \<Rightarrow> jsstring" where
  "encrypt c iv text =
     (let data = xor_stream (keystream c iv) (utf8_encode text);
          encrypted = to_hex data;
          authTag = auth_tag c iv data
      in to_hex iv @ js '':'' @ to_hex authTag @ js '':'' @ encrypted)"

text \<open>
  \<open>decrypt\<close>. The result is exact for a string that does not split into three parts,
  where the source throws before it reaches the platform, and for a payload that
  \<open>encrypt\<close> has produced. On any other string of three parts the platform decides, and
  it has more ways to fail than the model: it refuses an initialization vector or a tag
  of a length that the mode does not allow and a ciphertext field with an odd number of
  digits, and it compares a shorter tag with the start of the computed one. The model
  decodes the fields as \<open>Buffer.from\<close> does and reports every mismatch of the tags as
  \<open>Authentication_failed\<close>; no statement below is about such strings.
\<close>

definition decrypt :: "cipher \<Rightarrow> jsstring \<Rightarrow> decrypt_error + jsstring" where
  "decrypt c encrypted =
     (let parts = split_on 0x3A encrypted
      in if length parts \<noteq> 3 then Inl Invalid_encrypted_format
         else
           (let iv = from_hex (parts ! 0);
                authTag = from_hex (parts ! 1);
                data = from_hex (parts ! 2)
            in if auth_tag c iv data \<noteq> authTag then Inl Authentication_failed
               else Inr (utf8_decode (xor_stream (keystream c iv) data))))"

text \<open>A cipher and two initialization vectors to evaluate the functions on.\<close>

definition example_cipher :: cipher where
  "example_cipher =
     \<lparr>keystream = (\<lambda>iv i. iv ! (i mod 16) + of_nat (7 * i + 3)),
      auth_tag = (\<lambda>iv data. [fold (+) (iv @ data) 0x5A, of_nat (length data)])\<rparr>"

definition example_iv :: buffer where
  "example_iv = map of_nat [0..<16]"

definition other_iv :: buffer where
  "other_iv = map of_nat [16..<32]"

text \<open>The payload of the text \<^verbatim>\<open>secret\<close> under \<open>example_cipher\<close> and \<open>example_iv\<close>.\<close>

definition secret_payload :: jsstring where
  "secret_payload = js ''000102030405060708090a0b0c0d0e0f:2e06:706e7069465f''"

section \<open>The entries of a file\<close>

text \<open>
  The two loops of \<open>parse\<close> are followed here by a recursion over the list of lines, with
  no index: a line that gives a key and a value is read together with the lines that its
  value takes in, and reading goes on after them. The functions keep the order of the
  source: the quotes are tested before the lines are joined, a value that is a single
  quote character starts and ends with it, and a line that a value has taken in is not
  read again. \<open>read_entries\<close> lists the assignments \<open>result[key] = value\<close> of a run of the
  outer loop, in their order; this is lemma \<open>parse_loop_entries\<close> below.
\<close>

definition split_at_first_equals :: "jsstring \<Rightarrow> (jsstring \<times> jsstring) option" where
  "split_at_first_equals l =
     (if 0x3D \<in> set l
      then Some (takeWhile (\<lambda>c. c \<noteq> 0x3D) l, tl (dropWhile (\<lambda>c. c \<noteq> 0x3D) l))
      else None)"

text \<open>A value is surrounded by a quote when it starts and ends with it.\<close>

definition surrounded_by :: "code_unit \<Rightarrow> jsstring \<Rightarrow> bool" where
  "surrounded_by q v \<longleftrightarrow> v \<noteq> [] \<and> hd v = q \<and> last v = q"

definition strip_quotes :: "jsstring \<Rightarrow> jsstring" where
  "strip_quotes v = (if surrounded_by 0x22 v \<or> surrounded_by 0x27 v then butlast (tl v) else v)"

text \<open>
  Joining: while the value ends with a backslash and a line follows, the backslash gives
  way to a line feed and the trimmed following line. The lines not used up are returned.
\<close>

fun join_following :: "jsstring \<Rightarrow> jsstring list \<Rightarrow> jsstring \<times> jsstring list" where
  "join_following v [] = (v, [])"
| "join_following v (l # ls) =
     (if v \<noteq> [] \<and> last v = 0x5C then join_following (butlast v @ [0x0A] @ trim l) ls
      else (v, l # ls))"

lemma join_following_length: "length (snd (join_following v ls)) \<le> length ls"
  by (induction ls arbitrary: v) (auto intro: le_SucI)

text \<open>The entries of a file: the pairs of key and value, in the order of the lines.\<close>

function read_entries :: "jsstring list \<Rightarrow> (jsstring \<times> jsstring) list" where
  "read_entries [] = []"
| "read_entries (l # ls) =
     (let line = trim l
      in if line = [] \<or> hd line = 0x23 then read_entries ls
         else
           (case split_at_first_equals line of
              None \<Rightarrow> read_entries ls
            | Some (k, v) \<Rightarrow>
                (let joined = join_following (strip_quotes (trim v)) ls
                 in (trim k, fst joined) # read_entries (snd joined))))"
  by pat_completeness auto
termination
  by (relation "measure length") (simp_all add: join_following_length le_imp_less_Suc)

text \<open>
  The entry that a single line gives when it is read as a \<open>KEY=value\<close> line of its own,
  and the value of the last of a list of entries that has a given key.
\<close>

definition line_entry :: "jsstring \<Rightarrow> (jsstring \<times> jsstring) option" where
  "line_entry l =
     (let line = trim l
      in if line = [] \<or> hd line = 0x23 then None
         else
           (case split_at_first_equals line of
              None \<Rightarrow> None
            | Some (k, v) \<Rightarrow> Some (trim k, strip_quotes (trim v))))"

definition last_value :: "jsstring \<Rightarrow> (jsstring \<times> jsstring) list \<Rightarrow> jsstring option" where
  "last_value key es =
     (let fs = filter (\<lambda>e. fst e = key) es
      in if fs = [] then None else Some (snd (last fs)))"

text \<open>
  A file of three lines in which the second line for \<open>A\<close> follows a value that ends
  with a backslash: \<^verbatim>\<open>A=1\<close>, then \<^verbatim>\<open>B=x\<close> with a backslash after the \<open>x\<close>, then
  \<^verbatim>\<open>A=2\<close>.
\<close>

definition shadowed_file :: jsstring where
  "shadowed_file = js ''A=1'' @ [0x0A] @ js ''B=x'' @ [0x5C, 0x0A] @ js ''A=2''"

text \<open>A file of three lines, none of which ends with a backslash.\<close>

definition repeated_file :: jsstring where
  "repeated_file = js ''A=1'' @ [0x0A] @ js ''B=x'' @ [0x0A] @ js ''A=2''"

section \<open>The file format in the words of the specification\<close>





text \<open>The content of the file that has the given lines: a line feed between two lines.\<close>

fun join_lines :: "jsstring list \<Rightarrow> jsstring" where
  "join_lines [] = []"
| "join_lines [l] = l"
| "join_lines (l # m # ls) = l @ [0x0A] @ join_lines (m # ls)"





section \<open>Properties of the validators\<close>

subsection \<open>Boolean coercion ignores letter case\<close>

text \<open>
  Two strings are equal ignoring case when they have the same length and agree position by
  position up to the case of an ASCII letter.
\<close>

definition is_ascii_upper :: "code_unit \<Rightarrow> bool" where
  "is_ascii_upper c \<longleftrightarrow> 0x41 \<le> c \<and> c \<le> 0x5A"

definition same_letter :: "code_unit \<Rightarrow> code_unit \<Rightarrow> bool" where
  "same_letter a b \<longleftrightarrow>
     a = b \<or> (is_ascii_upper a \<and> b = a + 0x20) \<or> (is_ascii_upper b \<and> a = b + 0x20)"

definition equal_ignoring_case :: "jsstring \<Rightarrow> jsstring \<Rightarrow> bool" where
  "equal_ignoring_case s t = list_all2 same_letter s t"

lemma lower_unit_same_letter:
  "\<not> is_ascii_upper b \<Longrightarrow> lower_unit a = b \<longleftrightarrow> same_letter a b"
  by (auto simp: lower_unit_def same_letter_def is_ascii_upper_def)

lemma toLowerCase_equal_ignoring_case:
  "list_all (\<lambda>b. \<not> is_ascii_upper b) t \<Longrightarrow> toLowerCase s = t \<longleftrightarrow> equal_ignoring_case s t"
proof (induction s arbitrary: t)
  case Nil
  then show ?case by (auto simp: toLowerCase_def equal_ignoring_case_def)
next
  case (Cons a s)
  show ?case
  proof (cases t)
    case Nil
    then show ?thesis by (simp add: toLowerCase_def equal_ignoring_case_def)
  next
    case (Cons b t')
    with Cons.prems have nb: "\<not> is_ascii_upper b"
      and t': "list_all (\<lambda>b. \<not> is_ascii_upper b) t'"
      by simp_all
    from Cons.IH [OF t'] lower_unit_same_letter [OF nb, of a] Cons show ?thesis
      by (simp add: toLowerCase_def equal_ignoring_case_def)
  qed
qed

lemma boolean_literals_lower:
  "list_all (\<lambda>b. \<not> is_ascii_upper b) (js ''true'')"
  "list_all (\<lambda>b. \<not> is_ascii_upper b) (js ''1'')"
  "list_all (\<lambda>b. \<not> is_ascii_upper b) (js ''yes'')"
  "list_all (\<lambda>b. \<not> is_ascii_upper b) (js ''false'')"
  "list_all (\<lambda>b. \<not> is_ascii_upper b) (js ''0'')"
  "list_all (\<lambda>b. \<not> is_ascii_upper b) (js ''no'')"
  by (simp_all add: js_def is_ascii_upper_def)

text \<open>
  Claim C6. For a boolean field, a raw string that equals \<open>true\<close>, \<open>1\<close> or \<open>yes\<close>
  up to letter case coerces to true, one that equals \<open>false\<close>, \<open>0\<close> or \<open>no\<close> up to
  letter case coerces to false, and every other string fails with the error thrown for an
  invalid boolean.
\<close>

theorem validateBoolean_case_insensitive:
  "validateBoolean (VStr s) =
     (if \<exists>w \<in> {js ''true'', js ''1'', js ''yes''}. equal_ignoring_case s w then Inr True
      else if \<exists>w \<in> {js ''false'', js ''0'', js ''no''}. equal_ignoring_case s w then Inr False
      else Inl (Invalid_boolean (VStr s)))"
  by (simp add: Let_def boolean_literals_lower [THEN toLowerCase_equal_ignoring_case, of s])

theorem validateBoolean_case_insensitive_witness:
  "equal_ignoring_case (js ''YeS'') (js ''yes'') \<and>
   validateBoolean (VStr (js ''YeS'')) = Inr True \<and>
   validateBoolean (VStr (js ''nO'')) = Inr False \<and>
   validateBoolean (VStr (js ''maybe'')) = Inl (Invalid_boolean (VStr (js ''maybe'')))"
proof -
  have 1: "equal_ignoring_case (js ''YeS'') (js ''yes'')"
    by code_simp
  have 2: "equal_ignoring_case (js ''nO'') (js ''no'')"
    by code_simp
  have 3: "\<not> (\<exists>w \<in> {js ''true'', js ''1'', js ''yes'', js ''false'', js ''0'', js ''no''}.
              equal_ignoring_case (js ''maybe'') w)"
    by (simp add: js_def equal_ignoring_case_def same_letter_def is_ascii_upper_def)
  have 4: "\<not> (\<exists>w \<in> {js ''true'', js ''1'', js ''yes''}. equal_ignoring_case (js ''nO'') w)"
    by (simp add: js_def equal_ignoring_case_def same_letter_def is_ascii_upper_def)
  show ?thesis
    using 1 2 3 4 validateBoolean_case_insensitive [of "js ''YeS''"]
      validateBoolean_case_insensitive [of "js ''nO''"]
      validateBoolean_case_insensitive [of "js ''maybe''"]
    by simp
qed

subsection \<open>Ports\<close>

lemma round_half_even_int: "round_half_even (of_int n) = n"
  by (simp add: round_half_even_def)

lemma pow2_pos: "0 < pow2 k"
  by (simp add: pow2_def)

lemma round_double_int:
  assumes "0 \<le> n" "n < 2 ^ 53"
  shows "round_double (of_int n) = Finite (of_int n)"
proof (cases "n = 0")
  case True
  then show ?thesis by (simp add: round_double_def)
next
  case False
  with assms have pos: "0 < n" by simp
  define q :: rat where "q = of_int n"
  define e where "e = max (floor_log2 q) (- 1022)"
  have "bitlen n \<le> 53"
    using assms by (simp add: bitlen_le_iff_power)
  then have "floor_log2 q \<le> 52"
    by (simp add: floor_log2_def q_def Let_def bitlen_alt_def split: if_splits)
  then have e52: "e \<le> 52"
    by (simp add: e_def)
  then have ulp: "pow2 (e - 52) = 1 / 2 ^ nat (52 - e)"
    by (cases "e = 52") (simp_all add: pow2_def)
  have "q / pow2 (e - 52) = of_int (n * 2 ^ nat (52 - e))"
    by (simp add: ulp q_def)
  then have r: "round_half_even (q / pow2 (e - 52)) = n * 2 ^ nat (52 - e)"
    by (simp only: round_half_even_int)
  have v: "of_int (round_half_even (q / pow2 (e - 52))) * pow2 (e - 52) = q"
    unfolding r unfolding ulp by (simp add: q_def)
  have "q < pow2 1024"
  proof -
    have "q < 2 ^ 53" using assms by (simp add: q_def)
    also have "(2 :: rat) ^ 53 \<le> 2 ^ 1024" by (rule power_increasing) simp_all
    finally show ?thesis by (simp add: pow2_def)
  qed
  with False v show ?thesis
    by (simp add: round_double_def Let_def q_def [symmetric] e_def [symmetric])
qed

lemmas number_eval = to_number_def trim_def js_def is_whitespace_def non_decimal_def
  signed_decimal_def unsigned_decimal_def is_digit_def exponent_part_def digits_value_def
  digit_val_def pow10_def Let_def

lemma to_number_examples:
  "to_number (js ''0'') = Finite 0"
  "to_number (js ''65536'') = Finite 65536"
  "to_number (js ''abc'') = NaN"
  "to_number (js ''1'') = Finite 1"
  "to_number (js ''80'') = Finite 80"
  "to_number (js ''65535'') = Finite 65535"
  using round_double_int [of 0] round_double_int [of 65536] round_double_int [of 1]
    round_double_int [of 80] round_double_int [of 65535]
  by (simp_all add: number_eval)



text \<open>
  Claim C5. For a port field the raw values \<open>0\<close>, \<open>65536\<close> and \<open>abc\<close> fail, and the raw
  values \<open>1\<close>, \<open>80\<close> and \<open>65535\<close> succeed and give the corresponding number.
\<close>

theorem validatePort_examples:
  "validatePort (VStr (js ''0'')) = Inl (Invalid_port (VStr (js ''0''))) \<and>
   validatePort (VStr (js ''65536'')) = Inl (Invalid_port (VStr (js ''65536''))) \<and>
   validatePort (VStr (js ''abc'')) = Inl (Invalid_port (VStr (js ''abc''))) \<and>
   validatePort (VStr (js ''1'')) = Inr (Finite 1) \<and>
   validatePort (VStr (js ''80'')) = Inr (Finite 80) \<and>
   validatePort (VStr (js ''65535'')) = Inr (Finite 65535)"
  by (simp add: validatePort_def to_number_examples isNaN_def)

subsection \<open>The empty string as a number\<close>

lemma to_number_empty: "to_number [] = Finite 0"
  by (simp add: to_number_def trim_def)

text \<open>
  Claim C9. For a number field the empty raw string is not rejected as an unparseable
  number: it converts to \<open>0\<close>, and validation succeeds with the value \<open>0\<close> whenever \<open>0\<close>
  lies within the bounds \<open>min\<close> and \<open>max\<close> that the field declares.
\<close>

theorem validateNumber_empty_string:
  "validateNumber (VStr []) config \<noteq> Inl (Invalid_number v) \<and>
   ((\<forall>m. cfg_min config = Some m \<longrightarrow> js_le m (Finite 0)) \<and>
    (\<forall>M. cfg_max config = Some M \<longrightarrow> js_le (Finite 0) M) \<longrightarrow>
    validateNumber (VStr []) config = Inr (Finite 0))"
proof -
  have a: "js_le m (Finite 0) \<Longrightarrow> \<not> js_lt (Finite 0) m" for m
    by (cases m) auto
  have b: "js_le (Finite 0) M \<Longrightarrow> \<not> js_lt M (Finite 0)" for M
    by (cases M) auto
  show ?thesis
    by (auto simp: validateNumber_def to_number_empty isNaN_def Let_def a b
        split: option.splits)
qed

theorem validateNumber_empty_string_witness:
  "cfg_min (field_with_bounds (Some (Finite (- 1))) (Some (Finite 10))) = Some (Finite (- 1)) \<and>
   js_le (Finite (- 1)) (Finite 0) \<and>
   cfg_max (field_with_bounds (Some (Finite (- 1))) (Some (Finite 10))) = Some (Finite 10) \<and>
   js_le (Finite 0) (Finite 10) \<and>
   validateNumber (VStr []) (field_with_bounds (Some (Finite (- 1))) (Some (Finite 10)))
     = Inr (Finite 0)"
  using validateNumber_empty_string
    [of "field_with_bounds (Some (Finite (- 1))) (Some (Finite 10))"]
  by (simp add: field_with_bounds_def)

section \<open>Properties of the parser\<close>

subsection \<open>String methods on single code units\<close>

lemma startsWith_unit: "startsWith s [q] \<longleftrightarrow> s \<noteq> [] \<and> hd s = q"
  by (cases s) (auto simp: startsWith_def)

lemma endsWith_unit: "endsWith s [q] \<longleftrightarrow> s \<noteq> [] \<and> last s = q"
proof (cases s rule: rev_cases)
  case Nil
  then show ?thesis by (simp add: endsWith_def)
next
  case (snoc ys y)
  then show ?thesis by (auto simp: endsWith_def)
qed

lemma nat_int_pred: "nat (max (int n - 1) 0) = n - 1"
  by (cases n) auto

lemma slice_str_butlast: "slice_str v 0 (- 1) = butlast v"
  by (simp add: slice_str_def butlast_conv_take nat_int_pred)

lemma slice_str_inner: "slice_str v 1 (- 1) = butlast (tl v)"
proof (cases v)
  case Nil
  then show ?thesis by (simp add: slice_str_def)
next
  case (Cons a r)
  have "nat (max (int (length r)) 0 - 1) = length r - 1"
    by (cases r) auto
  with Cons show ?thesis
    by (simp add: slice_str_def butlast_conv_take)
qed

lemma indexOf_unit:
  "indexOf l [c] = (if c \<in> set l then int (length (takeWhile (\<lambda>x. x \<noteq> c) l)) else - 1)"
proof (induction l)
  case Nil
  then show ?case by simp
next
  case (Cons a l)
  show ?case
  proof (cases "a = c")
    case True
    then show ?thesis by (simp add: startsWith_def)
  next
    case False
    then have "\<not> startsWith (a # l) [c]" by (simp add: startsWith_def)
    with False Cons show ?thesis by (simp add: Let_def)
  qed
qed

lemma includes_str_unit: "includes_str l [c] \<longleftrightarrow> c \<in> set l"
  by (simp add: includes_str_def indexOf_unit)

lemma substring_key:
  "substring l 0 (int (length (takeWhile P l))) = takeWhile P l"
proof -
  have le: "length (takeWhile P l) \<le> length l"
    by (rule length_takeWhile_le)
  have "take (length (takeWhile P l)) l = takeWhile P l"
    by (rule takeWhile_eq_take [symmetric])
  with le show ?thesis
    by (simp add: substring_def Let_def min_def max_def)
qed

lemma takeWhile_shorter: "\<not> list_all P l \<Longrightarrow> length (takeWhile P l) < length l"
  by (induction l) auto

lemma substring_from_value:
  assumes "\<not> list_all P l"
  shows "substring_from l (int (length (takeWhile P l)) + 1) = tl (dropWhile P l)"
proof -
  define n where "n = length (takeWhile P l)"
  from assms have lt: "n < length l"
    unfolding n_def by (rule takeWhile_shorter)
  then have "nat (int (length l) - (int n + 1)) = length l - Suc n"
    by arith
  moreover have "nat (int n + 1) = Suc n"
    by arith
  moreover have "dropWhile P l = drop n l"
    unfolding n_def by (rule dropWhile_eq_drop)
  ultimately show ?thesis
    using lt unfolding n_def [symmetric]
    by (simp add: substring_from_def substring_def Let_def min_def max_def drop_Suc tl_drop)
qed

lemma split_on_none: "sep \<notin> set a \<Longrightarrow> split_on sep a = [a]"
  by (induction a) auto

lemma split_on_append: "sep \<notin> set a \<Longrightarrow> split_on sep (a @ sep # rest) = a # split_on sep rest"
  by (induction a) auto

subsection \<open>The loops follow the lines\<close>

lemma join_following_no_backslash:
  "\<not> (v \<noteq> [] \<and> last v = 0x5C) \<Longrightarrow> join_following v ls = (v, ls)"
  by (cases ls) auto

lemma continuation_join:
  "i < length lines \<Longrightarrow>
   join_following v (drop (Suc i) lines) =
     (fst (continuation lines v i), drop (Suc (snd (continuation lines v i))) lines)"
proof (induction lines v i rule: continuation.induct)
  case (1 lines val i)
  show ?case
  proof (cases "endsWith val [0x5C] \<and> i < length lines - 1")
    case True
    then have si: "Suc i < length lines"
      by arith
    then have d: "drop (Suc i) lines = lines ! Suc i # drop (Suc (Suc i)) lines"
      by (simp add: Cons_nth_drop_Suc)
    from True have c: "continuation lines val i =
        continuation lines (slice_str val 0 (- 1) @ [0x0A] @ trim (lines ! (i + 1))) (i + 1)"
      by (subst continuation.simps) simp
    from "1.IH" [OF True] si
    have "join_following (slice_str val 0 (- 1) @ [0x0A] @ trim (lines ! (i + 1)))
            (drop (Suc (i + 1)) lines) =
          (fst (continuation lines val i), drop (Suc (snd (continuation lines val i))) lines)"
      by (simp add: c)
    with True show ?thesis
      by (simp add: d endsWith_unit slice_str_butlast)
  next
    case False
    then have c: "continuation lines val i = (val, i)"
      by (subst continuation.simps) auto
    show ?thesis
    proof (cases "endsWith val [0x5C]")
      case True
      with False "1.prems" have "drop (Suc i) lines = []"
        by simp
      then show ?thesis
        by (simp add: c)
    next
      case False
      then show ?thesis
        by (simp add: c join_following_no_backslash endsWith_unit)
    qed
  qed
qed

lemma js_units:
  "js ''#'' = [0x23]" "js ''='' = [0x3D]" "js [CHR 0x27] = [0x27]"
  by (simp_all add: js_def)

lemma quoted_surrounded:
  "(startsWith v [0x22] \<and> endsWith v [0x22]) \<or> (startsWith v [0x27] \<and> endsWith v [0x27])
     \<longleftrightarrow> surrounded_by 0x22 v \<or> surrounded_by 0x27 v"
  by (auto simp: startsWith_unit endsWith_unit surrounded_by_def)

lemma parse_loop_entries:
  "parse_loop lines i result =
     foldl (\<lambda>obj (k, v). set_property obj k v) result (read_entries (drop i lines))"
proof (induction "length lines - i" arbitrary: i result rule: less_induct)
  case less
  show ?case
  proof (cases "i < length lines")
    case False
    then show ?thesis
      by (subst parse_loop.simps) simp
  next
    case True
    then have d: "drop i lines = lines ! i # drop (Suc i) lines"
      by (simp add: Cons_nth_drop_Suc)
    define line where "line = trim (lines ! i)"
    from True have next_line: "parse_loop lines (i + 1) result =
        foldl (\<lambda>obj (k, v). set_property obj k v) result (read_entries (drop (Suc i) lines))"
      using less [of "i + 1" result] by simp
    show ?thesis
    proof (cases "line = [] \<or> hd line = 0x23")
      case skip: True
      then have "parse_loop lines i result = parse_loop lines (i + 1) result"
        using True
        by (subst parse_loop.simps) (auto simp: line_def [symmetric] startsWith_unit js_units)
      moreover from skip have "read_entries (drop i lines) = read_entries (drop (Suc i) lines)"
        by (simp add: d line_def [symmetric])
      ultimately show ?thesis
        using next_line by simp
    next
      case keep: False
      then have nskip: "\<not> (line = [] \<or> startsWith line (js ''#''))"
        by (simp add: startsWith_unit js_units)
      show ?thesis
      proof (cases "0x3D \<in> set line")
        case False
        then have "parse_loop lines i result = parse_loop lines (i + 1) result"
          using True nskip
          by (subst parse_loop.simps)
            (simp add: line_def [symmetric] includes_str_unit js_units)
        moreover from False keep
        have "read_entries (drop i lines) = read_entries (drop (Suc i) lines)"
          by (simp add: d line_def [symmetric] split_at_first_equals_def)
        ultimately show ?thesis
          using next_line by simp
      next
        case eq: True
        define k where "k = takeWhile (\<lambda>c. c \<noteq> 0x3D) line"
        define v where "v = tl (dropWhile (\<lambda>c. c \<noteq> 0x3D) line)"
        define cont where "cont = continuation lines (strip_quotes (trim v)) i"
        from eq have idx: "indexOf line [0x3D] = int (length k)"
          by (simp add: indexOf_unit k_def)
        have key: "substring line 0 (indexOf line [0x3D]) = k"
          unfolding idx k_def by (rule substring_key)
        from eq have "\<not> list_all (\<lambda>c. c \<noteq> 0x3D) line"
          by (auto simp: list_all_iff)
        then have val: "substring_from line (indexOf line [0x3D] + 1) = v"
          unfolding idx k_def v_def by (rule substring_from_value)
        have "parse_loop lines i result =
            parse_loop lines (snd cont + 1) (set_property result (trim k) (fst cont))"
          using True nskip eq
          by (subst parse_loop.simps)
            (simp add: line_def [symmetric] includes_str_unit js_units key val Let_def
              quoted_surrounded strip_quotes_def slice_str_inner cont_def)
        also have "\<dots> = foldl (\<lambda>obj (k, v). set_property obj k v)
            (set_property result (trim k) (fst cont)) (read_entries (drop (snd cont + 1) lines))"
          using True continuation_measure [OF True, of "strip_quotes (trim v)"]
          by (intro less) (simp add: cont_def)
        also have "\<dots> = foldl (\<lambda>obj (k, v). set_property obj k v) result
            (read_entries (drop i lines))"
          using keep eq continuation_join [OF True, of "strip_quotes (trim v)"]
          by (simp add: d line_def [symmetric] split_at_first_equals_def k_def v_def cont_def)
        finally show ?thesis .
      qed
    qed
  qed
qed

text \<open>Quotes, the first \<open>=\<close> and a trailing backslash, on the functions that read a line.\<close>

lemma strip_quotes_quoted:
  "q = 0x22 \<or> q = 0x27 \<Longrightarrow> strip_quotes (q # inner @ [q]) = inner"
  by (auto simp: strip_quotes_def surrounded_by_def)


lemma join_following_backslash:
  "join_following (v @ [0x5C]) (l # ls) = join_following (v @ [0x0A] @ trim l) ls"
  by simp

lemma read_entries_Cons:
  "read_entries (l # ls) =
     (case line_entry l of
        None \<Rightarrow> read_entries ls
      | Some (k, v) \<Rightarrow>
          (k, fst (join_following v ls)) # read_entries (snd (join_following v ls)))"
  by (simp add: line_entry_def Let_def split: option.splits)

subsection \<open>The lines as the specification reads them\<close>











text \<open>
  Every content is the content of the file that has its lines, none of which holds a
  line feed.
\<close>

lemma split_on_not_Nil: "split_on sep s \<noteq> []"
  by (induction s) (auto split: list.splits)

lemma split_on_lines: "list_all (\<lambda>l. sep \<notin> set l) (split_on sep s)"
  by (induction s) (auto split: list.splits)

lemma join_lines_Cons: "ls \<noteq> [] \<Longrightarrow> join_lines (l # ls) = l @ [0x0A] @ join_lines ls"
  by (cases ls) auto

lemma join_lines_Cons_Cons: "join_lines ((c # l) # ls) = c # join_lines (l # ls)"
  by (cases ls) auto

lemma join_lines_split_on: "join_lines (split_on 0x0A content) = content"
proof (induction content)
  case Nil
  then show ?case by simp
next
  case (Cons c cs)
  show ?case
  proof (cases "c = 0x0A")
    case True
    with Cons show ?thesis
      by (simp add: join_lines_Cons split_on_not_Nil)
  next
    case False
    obtain p ps where s: "split_on 0x0A cs = p # ps"
      by (cases "split_on 0x0A cs") (simp_all add: split_on_not_Nil)
    with Cons False show ?thesis
      by (simp add: join_lines_Cons_Cons)
  qed
qed






subsection \<open>Later entries overwrite earlier ones\<close>

lemma last_value_snoc:
  "last_value key (es @ [(k, v)]) = (if k = key then Some v else last_value key es)"
  by (simp add: last_value_def)

lemma foldl_set_property:
  "foldl (\<lambda>obj (k, v). set_property obj k v) obj es key =
     (if key = js ''__proto__'' then obj key
      else (case last_value key es of None \<Rightarrow> obj key | Some v \<Rightarrow> Some v))"
proof (induction es rule: rev_induct)
  case Nil
  then show ?case by (simp add: last_value_def)
next
  case (snoc e es)
  obtain k v where e: "e = (k, v)" by (cases e)
  show ?case
    using snoc by (auto simp: e last_value_snoc set_property_def)
qed

lemma read_entries_lines:
  "\<forall>l \<in> set ls. \<forall>k v. line_entry l = Some (k, v) \<longrightarrow> \<not> (v \<noteq> [] \<and> last v = 0x5C) \<Longrightarrow>
   read_entries ls = List.map_filter line_entry ls"
proof (induction ls)
  case Nil
  then show ?case by (simp add: List.map_filter_simps)
next
  case (Cons l ls)
  then have IH: "read_entries ls = List.map_filter line_entry ls"
    by simp
  show ?case
  proof (cases "line_entry l")
    case None
    then show ?thesis
      using IH by (simp add: read_entries_Cons List.map_filter_simps del: read_entries.simps)
  next
    case (Some e)
    obtain k v where e: "e = (k, v)" by (cases e)
    with Some Cons.prems have nb: "\<not> (v \<noteq> [] \<and> last v = 0x5C)"
      by simp
    from Some e show ?thesis
      using IH join_following_no_backslash [OF nb, of ls]
      by (simp add: read_entries_Cons List.map_filter_simps del: read_entries.simps)
  qed
qed

text \<open>
  Claim C10, as amended. The returned map binds a key other than \<open>__proto__\<close> to the value
  of the last entry of the file that has this key, and to nothing when no entry has it.
  An entry is a \<open>KEY=value\<close> line together with the lines that its value takes in by a
  trailing backslash: a line taken in is part of that value and not an entry of its own.
\<close>

theorem parse_binds_last_entry:
  assumes "key \<noteq> js ''__proto__''"
  shows "parse content key = last_value key (read_entries (split_on 0x0A content))"
  using assms
  by (simp add: parse_def parse_loop_entries foldl_set_property split: option.splits)

text \<open>In \<open>repeated_file\<close> the key \<open>A\<close> has two entries, and the map binds it to the second.\<close>

theorem parse_binds_last_entry_witness:
  "js ''A'' \<noteq> js ''__proto__'' \<and>
   read_entries (split_on 0x0A repeated_file) =
     [(js ''A'', js ''1''), (js ''B'', js ''x''), (js ''A'', js ''2'')] \<and>
   parse repeated_file (js ''A'') = Some (js ''2'')"
proof -
  have 1: "js ''A'' \<noteq> js ''__proto__''"
    by (simp add: js_def)
  have 2: "read_entries (split_on 0x0A repeated_file) =
     [(js ''A'', js ''1''), (js ''B'', js ''x''), (js ''A'', js ''2'')]"
    by code_simp
  from parse_binds_last_entry [OF 1, of repeated_file] 1 2 show ?thesis
    by (simp add: last_value_def js_def)
qed

text \<open>
  The claim as it is stated, for the last \<open>KEY=value\<close> line of the file, fails on
  \<open>shadowed_file\<close>: the last line for \<open>A\<close> is \<^verbatim>\<open>A=2\<close>, but it is taken in by the value
  of \<open>B\<close>, and \<open>A\<close> keeps the value \<open>1\<close>.
\<close>

theorem parse_last_line_counterexample:
  "parse shadowed_file (js ''A'') = Some (js ''1'') \<and>
   last_value (js ''A'') (List.map_filter line_entry (split_on 0x0A shadowed_file))
     = Some (js ''2'')"
  by (intro conjI; code_simp)

text \<open>
  In a file where no value ends with a backslash every \<open>KEY=value\<close> line is an entry, and
  the claim holds for the lines.
\<close>

lemma parse_binds_last_line:
  assumes "\<forall>l \<in> set (split_on 0x0A content). \<forall>k v.
             line_entry l = Some (k, v) \<longrightarrow> \<not> (v \<noteq> [] \<and> last v = 0x5C)"
    and "key \<noteq> js ''__proto__''"
  shows "parse content key =
           last_value key (List.map_filter line_entry (split_on 0x0A content))"
  using assms
  by (simp add: parse_def parse_loop_entries foldl_set_property read_entries_lines
      split: option.splits)

subsection \<open>Parsing reads the file content only\<close>

text \<open>
  Claim C8. Parsing is a function of the file content alone: \<open>parse\<close> has the content as
  its only argument, and loading a file gives the same result in any two worlds that
  hold the same content at the path, whatever the process environment is.
\<close>

theorem loadFile_ignores_environment:
  "loadFile (w\<lparr>process_env := e\<rparr>) p = loadFile w p \<and>
   (files w1 p = files w2 p \<longrightarrow> loadFile w1 p = loadFile w2 p)"
  by (simp add: loadFile_def)

theorem loadFile_ignores_environment_witness:
  "files \<lparr>process_env = [js ''A'' \<mapsto> js ''9''], files = [js ''.env'' \<mapsto> js ''A=1'']\<rparr> (js ''.env'') =
   files \<lparr>process_env = Map.empty, files = [js ''.env'' \<mapsto> js ''A=1'']\<rparr> (js ''.env'') \<and>
   loadFile \<lparr>process_env = [js ''A'' \<mapsto> js ''9''], files = [js ''.env'' \<mapsto> js ''A=1'']\<rparr> (js ''.env'') =
   loadFile \<lparr>process_env = Map.empty, files = [js ''.env'' \<mapsto> js ''A=1'']\<rparr> (js ''.env'')"
  using loadFile_ignores_environment
    [of _ _ "js ''.env''"
      "\<lparr>process_env = [js ''A'' \<mapsto> js ''9''], files = [js ''.env'' \<mapsto> js ''A=1'']\<rparr>"
      "\<lparr>process_env = Map.empty, files = [js ''.env'' \<mapsto> js ''A=1'']\<rparr>"]
  by simp

section \<open>Properties of the generated documentation\<close>

lemma swagger_loop_keys:
  "dom (fst (swagger_loop es (props, req))) \<subseteq>
     dom props \<union> {k. \<exists>c. (k, c) \<in> set es \<and> \<not> truthy (cfg_sensitive c)} \<and>
   set (snd (swagger_loop es (props, req))) \<subseteq>
     set req \<union> {k. \<exists>c. (k, c) \<in> set es \<and> \<not> truthy (cfg_sensitive c)}"
proof (induction es arbitrary: props req)
  case Nil
  then show ?case by simp
next
  case (Cons e es)
  obtain key config where e: "e = (key, config)" by (cases e)
  show ?case
  proof (cases "truthy (cfg_sensitive config)")
    case True
    with Cons [of props req] show ?thesis
      by (auto simp: e)
  next
    case False
    define props' where "props' = set_property props key
               \<lparr>sp_type = mapType (cfg_type config),
                sp_description = cfg_description config,
                sp_example = cfg_example config,
                sp_default = cfg_default config,
                sp_enum = cfg_enum config\<rparr>"
    define req' where "req' = (if truthy (cfg_required config) then req @ [key] else req)"
    have step: "swagger_loop (e # es) (props, req) = swagger_loop es (props', req')"
      using False by (simp add: e props'_def req'_def Let_def)
    have "dom props' \<subseteq> dom props \<union> {key}"
      by (auto simp: props'_def set_property_def split: if_splits)
    moreover have "set req' \<subseteq> set req \<union> {key}"
      by (auto simp: req'_def)
    ultimately show ?thesis
      using Cons [of props' req'] False unfolding step
      by (auto simp: e) blast+
  qed
qed

text \<open>
  Claim C7. For every schema the generated documentation leaves out every field marked
  sensitive: the name of such a field is not among the generated properties and not in
  the generated list of required fields, also when the field is marked required.
\<close>

theorem sensitive_fields_excluded:
  assumes "distinct (map fst schema)"
    and "(key, config) \<in> set schema"
    and "cfg_sensitive config = Some True"
  shows "key \<notin> dom (properties (generateSwaggerDoc schema)) \<and>
         key \<notin> set (required (generateSwaggerDoc schema))"
proof -
  from assms(1) have inj: "inj_on fst (set schema)"
    by (simp add: distinct_map)
  have only: "c = config" if "(key, c) \<in> set schema" for c
    using inj_onD [OF inj, of "(key, c)" "(key, config)"] that assms(2) by simp
  define shown where "shown = {k. \<exists>c. (k, c) \<in> set schema \<and> \<not> truthy (cfg_sensitive c)}"
  have out: "key \<notin> shown"
    using only assms(3) by (auto simp: shown_def truthy_def)
  obtain props req where loop: "swagger_loop schema (Map.empty, []) = (props, req)"
    by (cases "swagger_loop schema (Map.empty, [])")
  with swagger_loop_keys [of schema Map.empty "[]"]
  have "dom props \<subseteq> shown" and "set req \<subseteq> shown"
    by (simp_all add: shown_def)
  with out have "key \<notin> dom props" and "key \<notin> set req"
    by blast+
  then show ?thesis
    by (simp add: generateSwaggerDoc_def loop)
qed

theorem sensitive_fields_excluded_witness:
  "distinct (map fst example_schema) \<and>
   (js ''DATABASE_URL'', snd (example_schema ! 1)) \<in> set example_schema \<and>
   cfg_sensitive (snd (example_schema ! 1)) = Some True \<and>
   cfg_required (snd (example_schema ! 1)) = Some True \<and>
   js ''DATABASE_URL'' \<notin> dom (properties (generateSwaggerDoc example_schema)) \<and>
   js ''DATABASE_URL'' \<notin> set (required (generateSwaggerDoc example_schema))"
proof -
  have 1: "distinct (map fst example_schema)"
    by (simp add: example_schema_def js_def)
  have 2: "(js ''DATABASE_URL'', snd (example_schema ! 1)) \<in> set example_schema"
    by (simp add: example_schema_def)
  have 3: "cfg_sensitive (snd (example_schema ! 1)) = Some True"
    by (simp add: example_schema_def)
  have 4: "cfg_required (snd (example_schema ! 1)) = Some True"
    by (simp add: example_schema_def)
  from sensitive_fields_excluded [OF 1 2 3] 1 2 3 4 show ?thesis
    by simp
qed

section \<open>Properties of the file manager\<close>

text \<open>
  Claim C3 says that \<open>updateKey\<close> replaces the line of the key by \<open>KEY=value\<close>, or appends
  that line, and that a second call with the same arguments changes nothing. The branch
  that replaces passes the value to \<open>replace\<close> as a replacement pattern, in which a dollar
  sign is special, while the branch that appends writes the value as it is. With the value
  \<^verbatim>\<open>$&\<close> and the file \<^verbatim>\<open>K=1\<close> the first call writes \<^verbatim>\<open>K=K=1\<close> and not \<^verbatim>\<open>K=$&\<close>, and the
  second call changes the file again.
\<close>

theorem updateKey_not_idempotent:
  "map_option (\<lambda>w. read_file w (js ''.env''))
     (updateKey (env_file (js ''K=1'')) (js ''.env'') (js ''K'') (VStr (js ''$&'')))
     = Some (js ''K=K=1'') \<and>
   map_option (\<lambda>w. read_file w (js ''.env''))
     (updateKey (env_file (js ''K=K=1'')) (js ''.env'') (js ''K'') (VStr (js ''$&'')))
     = Some (js ''K=K=K=1'')"
  by (intro conjI; code_simp)

subsection \<open>Values without special characters\<close>

text \<open>
  Where the value has no dollar sign and no line terminator, and the key is literal and
  has no line terminator, \<open>updateKey\<close> does what the claim says: the line it wrote is
  found again by the second call and replaced by itself.
\<close>

lemma expand_replacement_plain:
  "0x24 \<notin> set r \<Longrightarrow> expand_replacement matched pre post r = r"
  by (induction matched pre post r rule: expand_replacement.induct) auto

lemma search_line_start_starts:
  "search_line_start lit b s = Some p \<Longrightarrow> take (length lit) (drop p s) = lit"
proof (induction s arbitrary: b p)
  case Nil
  then show ?case by (simp split: if_splits)
next
  case (Cons c s)
  then show ?case
    by (auto simp: startsWith_def split: if_splits)
qed

lemma search_line_start_prefix:
  "search_line_start lit b s = Some p \<Longrightarrow>
   take (p + length lit) s' = take (p + length lit) s \<Longrightarrow>
   search_line_start lit b s' = Some p"
proof (induction s arbitrary: b p s')
  case Nil
  then show ?case
    by (cases s') (auto simp: startsWith_def split: if_splits)
next
  case (Cons c s)
  show ?case
  proof (cases "b \<and> startsWith (c # s) lit")
    case True
    with Cons.prems have p: "p = 0"
      by simp
    with Cons.prems(2) True have "take (length lit) s' = lit"
      by (simp add: startsWith_def)
    with True p show ?thesis
      by (cases s') (auto simp: startsWith_def)
  next
    case False
    with Cons.prems(1) obtain p' where p: "p = Suc p'"
      and rest: "search_line_start lit (line_terminator c) s = Some p'"
      by auto
    from Cons.prems(2) p obtain s'' where s': "s' = c # s''"
      and eq: "take (p' + length lit) s'' = take (p' + length lit) s"
      by (cases s') auto
    have "take (length lit) (take (Suc (p' + length lit)) (c # s'')) =
          take (length lit) (take (Suc (p' + length lit)) (c # s))"
      using eq by simp
    then have "take (length lit) (c # s'') = take (length lit) (c # s)"
      by (simp only: take_take) (simp add: min_def)
    with False have "\<not> (b \<and> startsWith (c # s'') lit)"
      by (simp add: startsWith_def)
    with Cons.IH [OF rest eq] show ?thesis
      by (simp add: s' p)
  qed
qed


lemma search_line_start_bound:
  "search_line_start lit b s = Some p \<Longrightarrow> p + length lit \<le> length s"
proof (induction s arbitrary: b p)
  case Nil
  then show ?case by (simp split: if_splits)
next
  case (Cons c s)
  show ?case
  proof (cases "b \<and> startsWith (c # s) lit")
    case True
    then have "length (take (length lit) (c # s)) = length lit"
      by (simp add: startsWith_def)
    with True Cons.prems show ?thesis
      by (simp add: min_def split: if_splits)
  next
    case False
    with Cons show ?thesis by auto
  qed
qed

lemma search_line_start_appended:
  assumes "lit \<noteq> []" "0x0A \<notin> set lit"
  shows "search_line_start lit b s = None \<Longrightarrow>
         search_line_start lit b (s @ [0x0A] @ lit @ v) = Some (length s + 1)"
proof (induction s arbitrary: b)
  case Nil
  from assms obtain c r where lit: "lit = c # r" and c: "c \<noteq> 0x0A"
    by (cases lit) auto
  then show ?case
    by (simp add: startsWith_def line_terminator_def)
next
  case (Cons c s)
  from Cons.prems have no: "\<not> (b \<and> startsWith (c # s) lit)"
    and rest: "search_line_start lit (line_terminator c) s = None"
    by (auto split: if_splits)
  have "\<not> (b \<and> startsWith ((c # s) @ [0x0A] @ lit @ v) lit)"
  proof
    assume a: "b \<and> startsWith ((c # s) @ [0x0A] @ lit @ v) lit"
    then have eq: "take (length lit) ((c # s) @ 0x0A # lit @ v) = lit"
      by (simp add: startsWith_def)
    show False
    proof (cases "length lit \<le> length (c # s)")
      case True
      then have "take (length lit) ((c # s) @ 0x0A # lit @ v) = take (length lit) (c # s)"
        by (subst take_append) simp
      with eq have "take (length lit) (c # s) = lit"
        by simp
      with a no show False
        by (simp add: startsWith_def)
    next
      case False
      then have "length (c # s) < length lit"
        by simp
      then have "lit ! length (c # s) = take (length lit) ((c # s) @ 0x0A # lit @ v) ! length (c # s)"
        by (simp only: eq)
      also have "\<dots> = 0x0A"
        using \<open>length (c # s) < length lit\<close> by (simp add: nth_append)
      finally have "0x0A \<in> set lit"
        using \<open>length (c # s) < length lit\<close> by (metis nth_mem)
      with assms(2) show False by simp
    qed
  qed
  with Cons.IH [OF rest] show ?case
    by simp
qed

lemma takeWhile_value:
  assumes "\<not> list_ex line_terminator v"
  shows "takeWhile (\<lambda>c. \<not> line_terminator c) (v @ dropWhile (\<lambda>c. \<not> line_terminator c) xs) = v"
    and "takeWhile (\<lambda>c. \<not> line_terminator c) v = v"
proof -
  from assms have all: "\<forall>c \<in> set v. \<not> line_terminator c"
    by (simp add: list_ex_iff)
  then show "takeWhile (\<lambda>c. \<not> line_terminator c) v = v"
    by (simp add: takeWhile_eq_all_conv)
  have "takeWhile (\<lambda>c. \<not> line_terminator c) (dropWhile (\<lambda>c. \<not> line_terminator c) xs) = []"
    by (induction xs) auto
  with all show "takeWhile (\<lambda>c. \<not> line_terminator c)
      (v @ dropWhile (\<lambda>c. \<not> line_terminator c) xs) = v"
    by (simp add: takeWhile_append2)
qed

lemma drop_takeWhile_dropWhile:
  "drop (n + length (takeWhile P (drop n xs))) xs = dropWhile P (drop n xs)"
proof -
  have "drop (length (takeWhile P (drop n xs))) (drop n xs) = dropWhile P (drop n xs)"
    by (simp add: dropWhile_eq_drop)
  then show ?thesis
    by (simp add: add.commute)
qed

lemma update_replaced_again:
  fixes key v :: jsstring
  defines "lit \<equiv> key @ js ''=''"
  assumes m: "regex_exec key content = Some (p, matched)"
    and v: "0x24 \<notin> set (lit @ v)" "\<not> list_ex line_terminator v"
  defines "content' \<equiv> replace_first content (p, matched) (lit @ v)"
  shows "regex_exec key content' = Some (p, lit @ v)"
    and "replace_first content' (p, lit @ v) (lit @ v) = content'"
proof -
  define rest where "rest = takeWhile (\<lambda>c. \<not> line_terminator c) (drop (p + length lit) content)"
  define post where "post = dropWhile (\<lambda>c. \<not> line_terminator c) (drop (p + length lit) content)"
  have len: "length lit = length key + 1"
    by (simp add: lit_def js_def)
  from m have found: "search_line_start lit True content = Some p"
    and matched: "matched = lit @ rest"
    by (auto simp: regex_exec_def lit_def rest_def js_def add.assoc split: option.splits)
  from search_line_start_bound [OF found] have p: "p + length lit \<le> length content" .
  have "drop (p + length matched) content = post"
    using drop_takeWhile_dropWhile [of "p + length lit" "\<lambda>c. \<not> line_terminator c" content]
    by (simp add: matched rest_def post_def add.assoc)
  then have c': "content' = take p content @ lit @ v @ post"
    using v(1) by (simp add: content'_def replace_first_def expand_replacement_plain)
  from p have lp: "length (take p content) = p"
    by simp
  have "take (p + length lit) content = take p content @ lit"
    using search_line_start_starts [OF found] by (simp add: take_add)
  moreover have "take (p + length lit) content' = take p content @ lit"
    unfolding c' using lp by simp
  ultimately have found': "search_line_start lit True content' = Some p"
    using search_line_start_prefix [OF found, of content'] by simp
  have "drop (p + length lit) content' = v @ post"
    unfolding c' using lp by simp
  then have "takeWhile (\<lambda>c. \<not> line_terminator c) (drop (p + length key + 1) content') = v"
    using takeWhile_value(1) [OF v(2), of "drop (p + length lit) content"]
    by (simp add: post_def len add.assoc)
  with found' show exec: "regex_exec key content' = Some (p, lit @ v)"
    by (simp add: regex_exec_def lit_def [symmetric])
  have "drop (p + length (lit @ v)) content' = post"
    unfolding c' using lp by simp
  moreover have "take p content' = take p content"
    unfolding c' using lp by simp
  ultimately show "replace_first content' (p, lit @ v) (lit @ v) = content'"
    using v(1) by (simp add: replace_first_def expand_replacement_plain c')
qed

lemma update_appended_again:
  fixes key v :: jsstring
  defines "lit \<equiv> key @ js ''=''"
  assumes m: "regex_exec key content = None"
    and key: "\<not> list_ex line_terminator key"
    and v: "0x24 \<notin> set (lit @ v)" "\<not> list_ex line_terminator v"
  defines "content' \<equiv> content @ [0x0A] @ lit @ v"
  shows "regex_exec key content' = Some (length content + 1, lit @ v)"
    and "replace_first content' (length content + 1, lit @ v) (lit @ v) = content'"
proof -
  have len: "length lit = length key + 1"
    by (simp add: lit_def js_def)
  from key have "0x0A \<notin> set lit" "lit \<noteq> []"
    by (auto simp: lit_def js_def list_ex_iff line_terminator_def)
  moreover from m have "search_line_start lit True content = None"
    by (simp add: regex_exec_def lit_def split: option.splits)
  ultimately have found: "search_line_start lit True content' = Some (length content + 1)"
    unfolding content'_def by (intro search_line_start_appended)
  have "drop (length content + 1 + length lit) content' = v"
    by (simp add: content'_def)
  then have "drop (length content + 1 + length key + 1) content' = v"
    by (simp add: len add.assoc)
  with found show "regex_exec key content' = Some (length content + 1, lit @ v)"
    by (simp add: regex_exec_def lit_def takeWhile_value(2) [OF v(2)])
  show "replace_first content' (length content + 1, lit @ v) (lit @ v) = content'"
    using v(1) by (simp add: replace_first_def expand_replacement_plain content'_def)
qed


lemma updateKey_plain_value_idempotent:
  assumes key: "literal_key key" "\<not> list_ex line_terminator key"
    and v: "0x24 \<notin> set (String_of val)" "\<not> list_ex line_terminator (String_of val)"
  shows "\<exists>w'. updateKey w filePath key val = Some w' \<and>
              updateKey w' filePath key val = Some w'"
proof -
  define r where "r = key @ js ''='' @ String_of val"
  define step where "step content =
      (case regex_exec key content of
         Some m \<Rightarrow> replace_first content m r
       | None \<Rightarrow> content @ [0x0A] @ r)" for content
  from key(1) v(1) have plain: "0x24 \<notin> set ((key @ js ''='') @ String_of val)"
    by (auto simp: literal_key_def list_ex_iff syntax_character_def js_def)
  have twice: "step (step content) = step content" for content
  proof (cases "regex_exec key content")
    case None
    from update_appended_again [OF None key(2) plain v(2)] None show ?thesis
      by (simp add: step_def r_def)
  next
    case (Some m)
    obtain p matched where m: "m = (p, matched)" by (cases m)
    from update_replaced_again [OF Some [unfolded m] plain v(2)] Some show ?thesis
      by (simp add: step_def r_def m)
  qed
  have first: "updateKey w filePath key val = Some (write_file w filePath (step (read_file w filePath)))"
    for w
    using key(1) unfolding step_def r_def by (simp add: updateKey_def Let_def)
  have "read_file (write_file w filePath c) filePath = c" for c
    by (simp add: read_file_def write_file_def)
  moreover have "write_file (write_file w filePath c) filePath c = write_file w filePath c" for c
    by (simp add: write_file_def)
  ultimately show ?thesis
    by (simp add: first twice)
qed

section \<open>Properties of the encryption\<close>

subsection \<open>Hexadecimal fields and the split at the colons\<close>

lemma hex_digit_props:
  "\<forall>n \<in> {..<16}. is_hex_digit (hex_digit n) \<and> digit_val (hex_digit n) = int n \<and> hex_digit n \<noteq> 0x3A"
  by code_simp

lemma hex_digit_ok:
  assumes "n < 16"
  shows "is_hex_digit (hex_digit n)" "digit_val (hex_digit n) = int n" "hex_digit n \<noteq> 0x3A"
  using hex_digit_props assms by auto

lemma byte_nibbles: "of_nat (16 * (unat b div 16) + unat b mod 16) = (b :: 8 word)"
  by simp

lemma unat_byte_div: "unat (b :: 8 word) div 16 < 16"
proof -
  have "unat b < 2 ^ LENGTH(8)" by (rule unsigned_less)
  then show ?thesis by simp
qed

lemma from_hex_to_hex: "from_hex (to_hex buf) = buf"
proof (induction buf)
  case Nil
  then show ?case by (simp add: to_hex_def)
next
  case (Cons b buf)
  have "unat b mod 16 < 16" by simp
  with Cons unat_byte_div [of b] show ?case
    by (simp add: to_hex_def hex_digit_ok byte_nibbles)
qed

lemma to_hex_digits: "list_all is_hex_digit (to_hex buf)"
  using unat_byte_div by (induction buf) (simp_all add: to_hex_def hex_digit_ok)

lemma to_hex_no_colon: "0x3A \<notin> set (to_hex buf)"
  using unat_byte_div by (induction buf) (simp_all add: to_hex_def hex_digit_ok)

lemma split_on_encrypt:
  "split_on 0x3A (encrypt c iv text) =
     [to_hex iv,
      to_hex (auth_tag c iv (xor_stream (keystream c iv) (utf8_encode text))),
      to_hex (xor_stream (keystream c iv) (utf8_encode text))]"
  by (simp add: encrypt_def Let_def js_def split_on_append split_on_none to_hex_no_colon)

lemma hex_digit_alphabet_all: "\<forall>n \<in> {..<16}. hex_digit n = hex_alphabet ! n"
  by code_simp

lemma hex_digit_alphabet: "n < 16 \<Longrightarrow> hex_digit n = hex_alphabet ! n"
  using hex_digit_alphabet_all by auto

lemma hex_encoding_to_hex: "hex_encoding (to_hex buf) buf"
proof (induction buf)
  case Nil
  then show ?case by (simp add: to_hex_def)
next
  case (Cons b buf)
  have "unat b mod 16 < 16" by simp
  with Cons unat_byte_div [of b] show ?case
    by (simp add: to_hex_def hex_digit_alphabet)
qed

lemma encrypt_fields:
  "encrypt c iv s =
     to_hex iv @ [0x3A] @
     to_hex (auth_tag c iv (xor_stream (keystream c iv) (utf8_encode s))) @ [0x3A] @
     to_hex (xor_stream (keystream c iv) (utf8_encode s))"
  by (simp add: encrypt_def Let_def js_def)

lemma xor_stream_twice: "xor_stream ks (xor_stream ks data) = data"
  by (rule nth_equalityI) (simp_all add: xor_stream_def xor.assoc)

lemma decrypt_encrypt_codec:
  "decrypt c (encrypt c iv text) = Inr (utf8_decode (utf8_encode text))"
  by (simp add: decrypt_def split_on_encrypt from_hex_to_hex xor_stream_twice)

subsection \<open>UTF-8 decodes what it encoded\<close>

lemma unat_byte: "n < 256 \<Longrightarrow> unat (of_nat n :: 8 word) = n"
  by (simp add: unat_of_nat)

lemma mod_offset:
  fixes a :: nat
  assumes "m = k * n" "a < n"
  shows "(m + a) mod n = a"
proof -
  have "(k * n + a) mod n = a mod n" by (rule mod_mult_self3)
  also have "\<dots> = a" using assms(2) by (rule mod_less)
  finally show ?thesis by (simp only: assms(1))
qed

lemma lead_bits:
  fixes a :: nat
  shows "a < 32 \<Longrightarrow> (0xC0 + a) mod 0x20 = a"
    and "a < 16 \<Longrightarrow> (0xE0 + a) mod 0x10 = a"
    and "a < 8 \<Longrightarrow> (0xF0 + a) mod 0x08 = a"
    and "a < 64 \<Longrightarrow> (0x80 + a) mod 0x40 = a"
  by (rule mod_offset [where k = 6], simp, assumption)
    (rule mod_offset [where k = 14], simp, assumption,
     rule mod_offset [where k = 30], simp, assumption,
     rule mod_offset [where k = 2], simp, assumption)


lemma unat_bytes:
  fixes a :: nat
  shows "a < 128 \<Longrightarrow> unat (of_nat a :: 8 word) = a"
    and "a < 64 \<Longrightarrow> unat (0x80 + of_nat a :: 8 word) = 0x80 + a"
    and "a < 32 \<Longrightarrow> unat (0xC0 + of_nat a :: 8 word) = 0xC0 + a"
    and "a < 16 \<Longrightarrow> unat (0xE0 + of_nat a :: 8 word) = 0xE0 + a"
    and "a < 8 \<Longrightarrow> unat (0xF0 + of_nat a :: 8 word) = 0xF0 + a"
  using unat_byte [of a] unat_byte [of "0x80 + a"] unat_byte [of "0xC0 + a"]
    unat_byte [of "0xE0 + a"] unat_byte [of "0xF0 + a"]
  by simp_all

lemma decode1:
  assumes "a < 128"
  shows "utf8_decode_from utf8_start (of_nat a # bs) = a # utf8_decode_from utf8_start bs"
  using assms by (simp add: unat_bytes utf8_start_def Let_def)

lemma decode2:
  assumes "2 \<le> a" "a < 32" "b < 64"
  shows "utf8_decode_from utf8_start ((0xC0 + of_nat a) # (0x80 + of_nat b) # bs) =
           (a * 64 + b) # utf8_decode_from utf8_start bs"
  using assms by (simp add: unat_bytes lead_bits utf8_start_def Let_def)

lemma decode3:
  assumes "a < 16" "b < 64" "c < 64" "a = 0 \<longrightarrow> 32 \<le> b" "a = 13 \<longrightarrow> b < 32"
  shows "utf8_decode_from utf8_start
           ((0xE0 + of_nat a) # (0x80 + of_nat b) # (0x80 + of_nat c) # bs) =
           ((a * 64 + b) * 64 + c) # utf8_decode_from utf8_start bs"
  using assms by (auto simp: unat_bytes lead_bits utf8_start_def Let_def)

lemma decode4:
  assumes "a < 5" "b < 64" "c < 64" "d < 64" "a = 0 \<longrightarrow> 16 \<le> b" "a = 4 \<longrightarrow> b < 16"
  shows "utf8_decode_from utf8_start
           ((0xF0 + of_nat a) # (0x80 + of_nat b) # (0x80 + of_nat c) # (0x80 + of_nat d) # bs) =
           (((a * 64 + b) * 64 + c) * 64 + d) # utf8_decode_from utf8_start bs"
  using assms by (auto simp: unat_bytes lead_bits utf8_start_def Let_def)


declare utf8_decode_from.simps [simp del]

lemma decode_encode_code_point:
  assumes "scalar_value cp"
  shows "utf8_decode_from utf8_start (encode_code_point cp @ bs) =
           cp # utf8_decode_from utf8_start bs"
proof -
  define d where "d = cp mod 0x40"
  define q where "q = cp div 0x40"
  define c where "c = q mod 0x40"
  define r where "r = q div 0x40"
  define b where "b = r mod 0x40"
  define a where "a = r div 0x40"
  have split: "cp = q * 64 + d" "q = r * 64 + c" "r = a * 64 + b"
    by (simp_all add: d_def q_def c_def r_def b_def a_def)
  have digits: "d < 64" "c < 64" "b < 64"
    by (simp_all add: d_def c_def b_def)
  have shifts: "cp div 0x1000 = r" "cp div 0x40000 = a"
    by (simp_all add: a_def r_def q_def div_mult2_eq [symmetric])
  from assms have range: "cp < 0x110000" "\<not> (0xD800 \<le> cp \<and> cp \<le> 0xDFFF)"
    by (simp_all add: scalar_value_def)
  consider (one) "cp < 0x80" | (two) "0x80 \<le> cp" "cp < 0x800"
    | (three) "0x800 \<le> cp" "cp < 0x10000" | (four) "0x10000 \<le> cp"
    by linarith
  then show ?thesis
  proof cases
    case one
    then show ?thesis
      by (simp add: encode_code_point_def decode1)
  next
    case two
    with split digits have "2 \<le> q" "q < 32"
      by linarith+
    from decode2 [OF this digits(1), of bs] two show ?thesis
      by (simp add: encode_code_point_def q_def [symmetric] d_def [symmetric] split(1) [symmetric])
  next
    case three
    with split digits range have "r < 16" "r = 0 \<longrightarrow> 32 \<le> c" "r = 13 \<longrightarrow> c < 32"
      by linarith+
    from decode3 [OF this(1) digits(2) digits(1) this(2) this(3), of bs] three show ?thesis
      by (simp add: encode_code_point_def shifts q_def [symmetric] c_def [symmetric]
          d_def [symmetric] split(1,2) [symmetric])
  next
    case four
    with split digits range have "a < 5" "a = 0 \<longrightarrow> 16 \<le> b" "a = 4 \<longrightarrow> b < 16"
      by linarith+
    from decode4 [OF this(1) digits(3) digits(2) digits(1) this(2) this(3), of bs] four
    show ?thesis
      by (simp add: encode_code_point_def shifts q_def [symmetric] c_def [symmetric]
          d_def [symmetric] r_def [symmetric] b_def [symmetric] split [symmetric])
  qed
qed

lemma surrogate_unat:
  "is_high_surrogate c \<longleftrightarrow> 0xD800 \<le> unat c \<and> unat c \<le> 0xDBFF"
  "is_low_surrogate c \<longleftrightarrow> 0xDC00 \<le> unat c \<and> unat c \<le> 0xDFFF"
  by (simp_all add: is_high_surrogate_def is_low_surrogate_def word_le_nat_alt)

lemma unat_unit: "unat (c :: code_unit) < 0x10000"
proof -
  have "unat c < 2 ^ LENGTH(16)" by (rule unsigned_less)
  then show ?thesis by simp
qed

lemma div_mod_offset:
  fixes l :: nat
  assumes "l < n"
  shows "(h * n + l) div n = h" "(h * n + l) mod n = l"
  using assms by simp_all

lemma pair_code_point:
  assumes "is_high_surrogate c" "is_low_surrogate d"
  defines "cp \<equiv> 0x10000 + (unat c - 0xD800) * 0x400 + (unat d - 0xDC00)"
  shows "scalar_value cp" "code_units cp = [c, d]"
proof -
  define h where "h = unat c - 0xD800"
  define l where "l = unat d - 0xDC00"
  from assms(1,2) have h: "h < 0x400" "0xD800 + h = unat c" and l: "l < 0x400" "0xDC00 + l = unat d"
    unfolding surrogate_unat h_def l_def by linarith+
  have cp: "cp = 0x10000 + (h * 0x400 + l)"
    by (simp add: cp_def h_def l_def)
  from h(1) l(1) show "scalar_value cp"
    unfolding cp scalar_value_def by linarith
  have "(cp - 0x10000) div 0x400 = h" "(cp - 0x10000) mod 0x400 = l"
    unfolding cp using div_mod_offset [OF l(1), of h] by simp_all
  moreover have "\<not> cp < 0x10000"
    unfolding cp by linarith
  ultimately show "code_units cp = [c, d]"
    by (simp add: code_units_def h(2) l(2) del: of_nat_add)
qed

lemma single_code_point:
  assumes "\<not> is_high_surrogate c" "\<not> is_low_surrogate c"
  shows "scalar_value (unat c)" "code_units (unat c) = [c]"
  using assms unat_unit [of c]
  by (auto simp: surrogate_unat scalar_value_def code_units_def)

lemma well_formed_code_points:
  "well_formed s \<Longrightarrow>
   list_all scalar_value (code_points s) \<and> concat (map code_units (code_points s)) = s"
proof (induction s rule: well_formed.induct)
  case 1
  then show ?case by simp
next
  case (2 c)
  then show ?case by (simp add: single_code_point)
next
  case (3 c d s)
  show ?case
  proof (cases "is_high_surrogate c")
    case True
    with 3 show ?thesis
      by (simp add: pair_code_point)
  next
    case False
    with 3 show ?thesis
      by (simp add: single_code_point)
  qed
qed

lemma decode_encode_code_points:
  "list_all scalar_value cps \<Longrightarrow>
   utf8_decode_from utf8_start (concat (map encode_code_point cps)) = cps"
proof (induction cps)
  case Nil
  then show ?case
    by (simp add: utf8_decode_from.simps(1) utf8_start_def)
next
  case (Cons cp cps)
  then show ?case
    by (simp add: decode_encode_code_point)
qed

lemma utf8_roundtrip: "well_formed s \<Longrightarrow> utf8_decode (utf8_encode s) = s"
  by (simp add: utf8_decode_def utf8_encode_def well_formed_code_points decode_encode_code_points)

subsection \<open>Encryption and decryption\<close>

lemma encrypt_iv_differs: "iv1 \<noteq> iv2 \<Longrightarrow> encrypt c iv1 s \<noteq> encrypt c iv2 s"
proof
  assume ne: "iv1 \<noteq> iv2" and eq: "encrypt c iv1 s = encrypt c iv2 s"
  from eq have "split_on 0x3A (encrypt c iv1 s) = split_on 0x3A (encrypt c iv2 s)"
    by simp
  then have "to_hex iv1 = to_hex iv2"
    by (simp add: split_on_encrypt)
  then have "from_hex (to_hex iv1) = from_hex (to_hex iv2)"
    by simp
  with ne show False
    by (simp add: from_hex_to_hex)
qed

text \<open>
  Claim C1, as amended. For every plaintext that is well formed (every surrogate in it
  belongs to a pair), two calls of \<open>encrypt\<close> that draw different initialization vectors
  give different payloads, and each payload decrypts to the plaintext.
\<close>

theorem decrypt_encrypt:
  assumes "well_formed s" and "iv1 \<noteq> iv2"
  shows "encrypt c iv1 s \<noteq> encrypt c iv2 s \<and>
         decrypt c (encrypt c iv1 s) = Inr s \<and>
         decrypt c (encrypt c iv2 s) = Inr s"
  using assms by (simp add: encrypt_iv_differs decrypt_encrypt_codec utf8_roundtrip)

theorem decrypt_encrypt_witness:
  "well_formed (js ''secret'') \<and> example_iv \<noteq> other_iv \<and>
   encrypt example_cipher example_iv (js ''secret'')
     \<noteq> encrypt example_cipher other_iv (js ''secret'') \<and>
   decrypt example_cipher (encrypt example_cipher example_iv (js ''secret''))
     = Inr (js ''secret'') \<and>
   decrypt example_cipher (encrypt example_cipher other_iv (js ''secret''))
     = Inr (js ''secret'')"
proof -
  have wf: "well_formed (js ''secret'')"
    by code_simp
  have ne: "example_iv \<noteq> other_iv"
    by code_simp
  from decrypt_encrypt [OF wf ne, of example_cipher] wf ne show ?thesis
    by simp
qed

text \<open>
  For every string the claim fails: a surrogate that stands alone is encoded as U+FFFD,
  and that is what decryption gives back.
\<close>

theorem decrypt_encrypt_lone_surrogate:
  "decrypt example_cipher (encrypt example_cipher example_iv [0xD800]) = Inr [0xFFFD] \<and>
   decrypt example_cipher (encrypt example_cipher example_iv [0xD800]) \<noteq> Inr [0xD800]"
proof -
  have "utf8_encode [0xD800] = utf8_encode [0xFFFD]"
    by (simp add: utf8_encode_def is_high_surrogate_def is_low_surrogate_def)
  moreover have "well_formed [0xFFFD]"
    by (simp add: is_high_surrogate_def is_low_surrogate_def)
  ultimately have "utf8_decode (utf8_encode [0xD800]) = [0xFFFD]"
    by (simp add: utf8_roundtrip)
  then show ?thesis
    by (simp add: decrypt_encrypt_codec)
qed

text \<open>
  Claim C4. Every string that \<open>encrypt\<close> produces splits at the colons into exactly three
  fields and is these fields with a colon between them; the first field is the
  hexadecimal encoding of the initialization vector, the second that of the authentication
  tag of the ciphertext and the third that of the ciphertext, and every character of a
  field is a hexadecimal digit. \<open>decrypt\<close> fails with the error of the malformed format
  for every string that does not split at the colons into exactly three parts.
\<close>

theorem encrypted_format:
  "(let data = xor_stream (keystream c iv) (utf8_encode s);
        authTag = auth_tag c iv data;
        fields = split_on 0x3A (encrypt c iv s)
    in length fields = 3 \<and>
       encrypt c iv s = fields ! 0 @ [0x3A] @ fields ! 1 @ [0x3A] @ fields ! 2 \<and>
       hex_encoding (fields ! 0) iv \<and>
       hex_encoding (fields ! 1) authTag \<and>
       hex_encoding (fields ! 2) data \<and>
       list_all (list_all is_hex_digit) fields) \<and>
   (length (split_on 0x3A x) \<noteq> 3 \<longrightarrow> decrypt c x = Inl Invalid_encrypted_format)"
proof -
  define data where "data = xor_stream (keystream c iv) (utf8_encode s)"
  define authTag where "authTag = auth_tag c iv data"
  define fields where "fields = split_on 0x3A (encrypt c iv s)"
  have f: "fields = [to_hex iv, to_hex authTag, to_hex data]"
    unfolding fields_def authTag_def data_def by (rule split_on_encrypt)
  have e: "encrypt c iv s = to_hex iv @ [0x3A] @ to_hex authTag @ [0x3A] @ to_hex data"
    unfolding authTag_def data_def by (rule encrypt_fields)
  have 1: "length fields = 3"
    by (simp add: f)
  have 2: "encrypt c iv s = fields ! 0 @ [0x3A] @ fields ! 1 @ [0x3A] @ fields ! 2"
    by (simp add: f e)
  have 3: "hex_encoding (fields ! 0) iv" "hex_encoding (fields ! 1) authTag"
    "hex_encoding (fields ! 2) data"
    by (simp_all add: f hex_encoding_to_hex)
  have 4: "list_all (list_all is_hex_digit) fields"
    by (simp add: f to_hex_digits)
  have 5: "length (split_on 0x3A x) \<noteq> 3 \<longrightarrow> decrypt c x = Inl Invalid_encrypted_format"
    by (simp add: decrypt_def)
  from 1 2 3 4 5 show ?thesis
    unfolding Let_def data_def [symmetric] authTag_def [symmetric] fields_def [symmetric]
    by (intro conjI)
qed

text \<open>
  The payload of the text \<^verbatim>\<open>secret\<close> and its three fields, and two strings of two and
  of four parts.
\<close>

theorem encrypted_format_witness:
  "encrypt example_cipher example_iv (js ''secret'') = secret_payload \<and>
   split_on 0x3A secret_payload =
     [js ''000102030405060708090a0b0c0d0e0f'', js ''2e06'', js ''706e7069465f''] \<and>
   hex_encoding (js ''000102030405060708090a0b0c0d0e0f'') example_iv \<and>
   hex_encoding (js ''2e06'') [0x2E, 0x06] \<and>
   hex_encoding (js ''706e7069465f'') [0x70, 0x6E, 0x70, 0x69, 0x46, 0x5F] \<and>
   length (split_on 0x3A (js ''00:11'')) \<noteq> 3 \<and>
   decrypt example_cipher (js ''00:11'') = Inl Invalid_encrypted_format \<and>
   length (split_on 0x3A (js ''00:11:22:33'')) \<noteq> 3 \<and>
   decrypt example_cipher (js ''00:11:22:33'') = Inl Invalid_encrypted_format"
proof -
  have 1: "length (split_on 0x3A (js ''00:11'')) \<noteq> 3"
    by code_simp
  have 2: "length (split_on 0x3A (js ''00:11:22:33'')) \<noteq> 3"
    by code_simp
  have 3: "encrypt example_cipher example_iv (js ''secret'') = secret_payload"
    by code_simp
  have 4: "split_on 0x3A secret_payload =
     [js ''000102030405060708090a0b0c0d0e0f'', js ''2e06'', js ''706e7069465f'']"
    by code_simp
  have 5: "xor_stream (keystream example_cipher example_iv) (utf8_encode (js ''secret''))
      = [0x70, 0x6E, 0x70, 0x69, 0x46, 0x5F]"
    by code_simp
  have 6: "auth_tag example_cipher example_iv [0x70, 0x6E, 0x70, 0x69, 0x46, 0x5F] = [0x2E, 0x06]"
    by code_simp
  from encrypted_format [of example_cipher example_iv "js ''secret''" "js ''00:11''"]
    encrypted_format [of example_cipher example_iv "js ''secret''" "js ''00:11:22:33''"] 1 2
  show ?thesis
    unfolding Let_def 3 4 5 6 by simp
qed

end
